theory Spec2Isabelle
  imports Main "HOL-Library.Word" "HOL-Library.Multiset"
begin

section \<open>Data model of \<open>lockfree_queue.cpp\<close>\<close>

text \<open>
  A \<open>Node *\<close> is an index into the arena of nodes allocated so far, or \<open>None\<close> for
  \<open>nullptr\<close>. \<open>std::uintptr_t\<close> is a 64-bit unsigned integer (the pair is exchanged by
  a double quad word atomic), so the counter of a tagged pointer wraps around.
\<close>

type_synonym addr = nat
type_synonym node_ptr = "addr option"
type_synonym uintptr_t = "64 word"
type_synonym tid = nat

record Pointer =
  m_ptr :: node_ptr
  m_count :: uintptr_t

text \<open>\<open>Pointer{}\<close>: the default member initialisers, \<open>{nullptr, 0}\<close>.\<close>

definition Pointer_default :: Pointer where
  "Pointer_default = \<lparr>m_ptr = None, m_count = 0\<rparr>"

text \<open>\<open>Pointer::operator==\<close> and \<open>Pointer::operator!=\<close> (lines 147-157).\<close>

definition Pointer_eq :: "Pointer \<Rightarrow> Pointer \<Rightarrow> bool" where
  "Pointer_eq lhs rhs = ((m_ptr lhs = m_ptr rhs) \<and> (m_count lhs = m_count rhs))"

definition Pointer_neq :: "Pointer \<Rightarrow> Pointer \<Rightarrow> bool" where
  "Pointer_neq lhs rhs = (\<not> Pointer_eq lhs rhs)"

record 'a Node =
  m_value :: 'a
  m_next :: Pointer

text \<open>
  Modelled from the spec: the hazard-pointer context \<open>HPContext\<close> (module
  \<open>concurrency\<close>, not part of the source given). \<open>AddHazard(slot, ref)\<close> publishes
  \<open>ref\<close> in the calling thread's slot and returns a guard whose release un-publishes it;
  \<open>RetireHazard(ref)\<close> hands the node over to the context. The context's log of
  retired nodes is kept in call order. When the context physically frees a retired
  node is its own choice and is not modelled: a node stays in the arena.
\<close>

record HPContext =
  hazards :: "tid \<Rightarrow> nat \<Rightarrow> node_ptr"
  retired :: "node_ptr list"

definition HPContext_Instance :: HPContext where
  "HPContext_Instance = \<lparr>hazards = (\<lambda>t i. None), retired = []\<rparr>"

definition AddHazard :: "tid \<Rightarrow> nat \<Rightarrow> node_ptr \<Rightarrow> HPContext \<Rightarrow> HPContext" where
  "AddHazard t i p hp = hp\<lparr>hazards := (hazards hp)(t := (hazards hp t)(i := p))\<rparr>"

definition ReleaseHazard :: "tid \<Rightarrow> nat \<Rightarrow> HPContext \<Rightarrow> HPContext" where
  "ReleaseHazard t i hp = hp\<lparr>hazards := (hazards hp)(t := (hazards hp t)(i := None))\<rparr>"

definition RetireHazard :: "node_ptr \<Rightarrow> HPContext \<Rightarrow> HPContext" where
  "RetireHazard p hp = hp\<lparr>retired := retired hp @ [p]\<rparr>"

text \<open>
  The queue object together with the memory it points into: \<open>m_head\<close>, \<open>m_tail\<close>,
  \<open>m_hp\<close> are the members of \<open>LockfreeQueue\<close>; \<open>heap\<close> is the arena of the nodes
  created by \<open>new Node\<close>, a node's address being its index.
\<close>

record 'a LockfreeQueue =
  m_head :: Pointer
  m_tail :: Pointer
  m_hp :: HPContext
  heap :: "'a Node list"

text \<open>Dereferencing a null or dangling \<open>Node *\<close> is undefined behaviour: a fault of the model.\<close>

datatype fault = NullDereference

definition deref :: "'a LockfreeQueue \<Rightarrow> node_ptr \<Rightarrow> fault + 'a Node" where
  "deref q p =
     (case p of
        None \<Rightarrow> Inl NullDereference
      | Some a \<Rightarrow> if a < length (heap q) then Inr (heap q ! a) else Inl NullDereference)"

text \<open>\<open>new Node{value, {}}\<close>: the new node gets the next free address of the arena.\<close>

definition new_Node :: "'a \<Rightarrow> 'a LockfreeQueue \<Rightarrow> addr \<times> 'a LockfreeQueue" where
  "new_Node v q =
     (length (heap q), q\<lparr>heap := heap q @ [\<lparr>m_value = v, m_next = Pointer_default\<rparr>]\<rparr>)"

text \<open>
  Modelled from the spec: the double-width atomic \<open>DoubleQuadWordAtomic\<close> (module
  \<open>concurrency\<close>, not part of the source given). \<open>Load\<close> reads the pair as a unit;
  \<open>CompareExchange(expected, desired)\<close> replaces the slot's value by \<open>desired\<close> and
  returns true when the slot holds \<open>expected\<close>, and leaves it and returns false
  otherwise. An atomic slot is \<open>m_head\<close>, \<open>m_tail\<close> or the \<open>m_next\<close> of a node.
\<close>

datatype slot = Head | Tail | Next addr

definition Load :: "slot \<Rightarrow> 'a LockfreeQueue \<Rightarrow> fault + Pointer" where
  "Load sl q =
     (case sl of
        Head \<Rightarrow> Inr (m_head q)
      | Tail \<Rightarrow> Inr (m_tail q)
      | Next a \<Rightarrow> (case deref q (Some a) of Inl f \<Rightarrow> Inl f | Inr n \<Rightarrow> Inr (m_next n)))"

definition Store :: "slot \<Rightarrow> Pointer \<Rightarrow> 'a LockfreeQueue \<Rightarrow> 'a LockfreeQueue" where
  "Store sl p q =
     (case sl of
        Head \<Rightarrow> q\<lparr>m_head := p\<rparr>
      | Tail \<Rightarrow> q\<lparr>m_tail := p\<rparr>
      | Next a \<Rightarrow> q\<lparr>heap := (heap q)[a := (heap q ! a)\<lparr>m_next := p\<rparr>]\<rparr>)"

definition CompareExchange ::
  "slot \<Rightarrow> Pointer \<Rightarrow> Pointer \<Rightarrow> 'a LockfreeQueue \<Rightarrow> fault + (bool \<times> 'a LockfreeQueue)" where
  "CompareExchange sl expected desired q =
     (case Load sl q of
        Inl f \<Rightarrow> Inl f
      | Inr cur \<Rightarrow>
          if Pointer_eq cur expected then Inr (True, Store sl desired q) else Inr (False, q))"

text \<open>The private constructor (lines 46-54): a fresh sentinel \<open>new Node{}\<close> holding the
  default value of \<open>T\<close>, head and tail both \<open>{sentinel, 0}\<close>.\<close>

definition LockfreeQueue_init :: "'a \<Rightarrow> 'a LockfreeQueue" where
  "LockfreeQueue_init dflt =
     \<lparr>m_head = \<lparr>m_ptr = Some 0, m_count = 0\<rparr>,
      m_tail = \<lparr>m_ptr = Some 0, m_count = 0\<rparr>,
      m_hp = HPContext_Instance,
      heap = [\<lparr>m_value = dflt, m_next = Pointer_default\<rparr>]\<rparr>"

section \<open>\<open>Enqueue\<close> and \<open>Dequeue\<close>, one atomic access per step\<close>

text \<open>
  Each call runs in a thread \<open>t\<close> with its own local variables. A step performs one
  statement of the source: at most one access to shared memory. The guards returned by
  \<open>AddHazard\<close> are locals of the loop body, so they are released whenever an iteration
  is left (by \<open>continue\<close>, \<open>break\<close> or \<open>return\<close>); the release is part of the step that
  leaves the iteration.
\<close>

datatype enq_pc =
    E_new          \<comment> \<open>line 80\<close>
  | E_load_tail    \<comment> \<open>line 85\<close>
  | E_add_hazard   \<comment> \<open>line 86\<close>
  | E_validate     \<comment> \<open>lines 87-88\<close>
  | E_load_next    \<comment> \<open>lines 90-91\<close>
  | E_link         \<comment> \<open>lines 92-94\<close>
  | E_help         \<comment> \<open>lines 96-97\<close>
  | E_swing        \<comment> \<open>lines 100-101\<close>
  | E_return       \<comment> \<open>line 102\<close>

record 'a enq_local =
  e_pc :: enq_pc
  e_value :: 'a
  e_node :: node_ptr
  e_tail :: Pointer
  e_next :: Pointer

definition enq_start :: "'a \<Rightarrow> 'a enq_local" where
  "enq_start v =
     \<lparr>e_pc = E_new, e_value = v, e_node = None,
      e_tail = Pointer_default, e_next = Pointer_default\<rparr>"

definition enq_release :: "tid \<Rightarrow> 'a LockfreeQueue \<Rightarrow> 'a LockfreeQueue" where
  "enq_release t q = q\<lparr>m_hp := ReleaseHazard t 0 (m_hp q)\<rparr>"

definition enq_step ::
  "tid \<Rightarrow> 'a LockfreeQueue \<Rightarrow> 'a enq_local \<Rightarrow> fault + ('a LockfreeQueue \<times> 'a enq_local)" where
  "enq_step t q l =
     (case e_pc l of
        E_new \<Rightarrow>
          (case new_Node (e_value l) q of
             (a, q') \<Rightarrow> Inr (q', l\<lparr>e_node := Some a, e_pc := E_load_tail\<rparr>))
      | E_load_tail \<Rightarrow> Inr (q, l\<lparr>e_tail := m_tail q, e_pc := E_add_hazard\<rparr>)
      | E_add_hazard \<Rightarrow>
          Inr (q\<lparr>m_hp := AddHazard t 0 (m_ptr (e_tail l)) (m_hp q)\<rparr>, l\<lparr>e_pc := E_validate\<rparr>)
      | E_validate \<Rightarrow>
          if Pointer_neq (e_tail l) (m_tail q)
          then Inr (enq_release t q, l\<lparr>e_pc := E_load_tail\<rparr>)
          else Inr (q, l\<lparr>e_pc := E_load_next\<rparr>)
      | E_load_next \<Rightarrow>
          (case deref q (m_ptr (e_tail l)) of
             Inl f \<Rightarrow> Inl f
           | Inr n \<Rightarrow>
               Inr (q, l\<lparr>e_next := m_next n,
                          e_pc := (if m_ptr (m_next n) = None then E_link else E_help)\<rparr>))
      | E_link \<Rightarrow>
          (case m_ptr (e_tail l) of
             None \<Rightarrow> Inl NullDereference
           | Some a \<Rightarrow>
               (case CompareExchange (Next a) (e_next l)
                       \<lparr>m_ptr = e_node l, m_count = m_count (e_next l) + 1\<rparr> q of
                  Inl f \<Rightarrow> Inl f
                | Inr (ok, q') \<Rightarrow>
                    Inr (enq_release t q', l\<lparr>e_pc := (if ok then E_swing else E_load_tail)\<rparr>)))
      | E_help \<Rightarrow>
          (case CompareExchange Tail (e_tail l)
                  \<lparr>m_ptr = m_ptr (e_next l), m_count = m_count (e_tail l) + 1\<rparr> q of
             Inl f \<Rightarrow> Inl f
           | Inr (ok, q') \<Rightarrow> Inr (enq_release t q', l\<lparr>e_pc := E_load_tail\<rparr>))
      | E_swing \<Rightarrow>
          (case CompareExchange Tail (e_tail l)
                  \<lparr>m_ptr = e_node l, m_count = m_count (e_tail l) + 1\<rparr> q of
             Inl f \<Rightarrow> Inl f
           | Inr (ok, q') \<Rightarrow> Inr (q', l\<lparr>e_pc := E_return\<rparr>))
      | E_return \<Rightarrow> Inr (q, l))"

datatype deq_pc =
    D_load_head     \<comment> \<open>line 111\<close>
  | D_hazard_head   \<comment> \<open>line 112\<close>
  | D_validate      \<comment> \<open>lines 113-114\<close>
  | D_load_tail     \<comment> \<open>line 116\<close>
  | D_load_next     \<comment> \<open>line 117\<close>
  | D_hazard_next   \<comment> \<open>line 118\<close>
  | D_revalidate    \<comment> \<open>lines 120-126\<close>
  | D_help          \<comment> \<open>lines 127-129\<close>
  | D_copy          \<comment> \<open>line 135\<close>
  | D_advance       \<comment> \<open>lines 136-138\<close>
  | D_retire        \<comment> \<open>line 140\<close>
  | D_return        \<comment> \<open>lines 124 and 141\<close>

record 'a deq_local =
  d_pc :: deq_pc
  d_head :: Pointer
  d_tail :: Pointer
  d_next :: Pointer
  d_ret :: "'a option"
  d_result :: "'a option"

definition deq_start :: "'a deq_local" where
  "deq_start =
     \<lparr>d_pc = D_load_head, d_head = Pointer_default, d_tail = Pointer_default,
      d_next = Pointer_default, d_ret = None, d_result = None\<rparr>"

definition deq_release :: "tid \<Rightarrow> 'a LockfreeQueue \<Rightarrow> 'a LockfreeQueue" where
  "deq_release t q = q\<lparr>m_hp := ReleaseHazard t 0 (ReleaseHazard t 1 (m_hp q))\<rparr>"

definition deq_step ::
  "tid \<Rightarrow> 'a LockfreeQueue \<Rightarrow> 'a deq_local \<Rightarrow> fault + ('a LockfreeQueue \<times> 'a deq_local)" where
  "deq_step t q l =
     (case d_pc l of
        D_load_head \<Rightarrow> Inr (q, l\<lparr>d_head := m_head q, d_pc := D_hazard_head\<rparr>)
      | D_hazard_head \<Rightarrow>
          Inr (q\<lparr>m_hp := AddHazard t 0 (m_ptr (d_head l)) (m_hp q)\<rparr>, l\<lparr>d_pc := D_validate\<rparr>)
      | D_validate \<Rightarrow>
          if Pointer_neq (d_head l) (m_head q)
          then Inr (deq_release t q, l\<lparr>d_pc := D_load_head\<rparr>)
          else Inr (q, l\<lparr>d_pc := D_load_tail\<rparr>)
      | D_load_tail \<Rightarrow> Inr (q, l\<lparr>d_tail := m_tail q, d_pc := D_load_next\<rparr>)
      | D_load_next \<Rightarrow>
          (case deref q (m_ptr (d_head l)) of
             Inl f \<Rightarrow> Inl f
           | Inr n \<Rightarrow> Inr (q, l\<lparr>d_next := m_next n, d_pc := D_hazard_next\<rparr>))
      | D_hazard_next \<Rightarrow>
          Inr (q\<lparr>m_hp := AddHazard t 1 (m_ptr (d_next l)) (m_hp q)\<rparr>, l\<lparr>d_pc := D_revalidate\<rparr>)
      | D_revalidate \<Rightarrow>
          if Pointer_neq (d_head l) (m_head q)
          then Inr (deq_release t q, l\<lparr>d_pc := D_load_head\<rparr>)
          else if m_ptr (d_next l) = None
          then Inr (deq_release t q, l\<lparr>d_result := None, d_pc := D_return\<rparr>)
          else if m_ptr (d_head l) = m_ptr (d_tail l)
          then Inr (q, l\<lparr>d_pc := D_help\<rparr>)
          else Inr (q, l\<lparr>d_pc := D_copy\<rparr>)
      | D_help \<Rightarrow>
          (case CompareExchange Tail (d_tail l)
                  \<lparr>m_ptr = m_ptr (d_next l), m_count = m_count (d_tail l) + 1\<rparr> q of
             Inl f \<Rightarrow> Inl f
           | Inr (ok, q') \<Rightarrow> Inr (deq_release t q', l\<lparr>d_pc := D_load_head\<rparr>))
      | D_copy \<Rightarrow>
          (case deref q (m_ptr (d_next l)) of
             Inl f \<Rightarrow> Inl f
           | Inr n \<Rightarrow> Inr (q, l\<lparr>d_ret := Some (m_value n), d_pc := D_advance\<rparr>))
      | D_advance \<Rightarrow>
          (case CompareExchange Head (d_head l)
                  \<lparr>m_ptr = m_ptr (d_next l), m_count = m_count (d_head l) + 1\<rparr> q of
             Inl f \<Rightarrow> Inl f
           | Inr (ok, q') \<Rightarrow>
               Inr (deq_release t q', l\<lparr>d_pc := (if ok then D_retire else D_load_head)\<rparr>))
      | D_retire \<Rightarrow>
          Inr (q\<lparr>m_hp := RetireHazard (m_ptr (d_head l)) (m_hp q)\<rparr>,
               l\<lparr>d_result := d_ret l, d_pc := D_return\<rparr>)
      | D_return \<Rightarrow> Inr (q, l))"

text \<open>
  A call that no other thread interferes with: the thread's steps, one after the other,
  until the call returns. The loops of the source are \<open>while(true)\<close>, so a call that
  never returns is the value \<open>None\<close>.
\<close>

partial_function (option) enq_run ::
  "tid \<Rightarrow> 'a LockfreeQueue \<Rightarrow> 'a enq_local \<Rightarrow> (fault + 'a LockfreeQueue) option" where
  "enq_run t q l =
     (if e_pc l = E_return then Some (Inr q)
      else case enq_step t q l of
             Inl f \<Rightarrow> Some (Inl f)
           | Inr (q', l') \<Rightarrow> enq_run t q' l')"

definition Enqueue :: "tid \<Rightarrow> 'a \<Rightarrow> 'a LockfreeQueue \<Rightarrow> (fault + 'a LockfreeQueue) option" where
  "Enqueue t v q = enq_run t q (enq_start v)"

partial_function (option) deq_run ::
  "tid \<Rightarrow> 'a LockfreeQueue \<Rightarrow> 'a deq_local \<Rightarrow> (fault + ('a option \<times> 'a LockfreeQueue)) option" where
  "deq_run t q l =
     (if d_pc l = D_return then Some (Inr (d_result l, q))
      else case deq_step t q l of
             Inl f \<Rightarrow> Some (Inl f)
           | Inr (q', l') \<Rightarrow> deq_run t q' l')"

definition Dequeue :: "tid \<Rightarrow> 'a LockfreeQueue \<Rightarrow> (fault + ('a option \<times> 'a LockfreeQueue)) option" where
  "Dequeue t q = deq_run t q deq_start"


text \<open>The destructor (lines 69-75): \<open>Dequeue\<close> until it returns the empty optional.\<close>

partial_function (option) LockfreeQueue_destroy ::
  "tid \<Rightarrow> 'a LockfreeQueue \<Rightarrow> (fault + 'a LockfreeQueue) option" where
  "LockfreeQueue_destroy t q =
     (case Dequeue t q of
        None \<Rightarrow> None
      | Some (Inl f) \<Rightarrow> Some (Inl f)
      | Some (Inr (val, q')) \<Rightarrow>
          if val \<noteq> None then LockfreeQueue_destroy t q' else Some (Inr q'))"

section \<open>Sequential clients\<close>

text \<open>
  A sequential client performs a list of calls, each one running to completion before
  the next starts; the results of its \<open>Dequeue\<close> calls are collected in order.
\<close>

datatype 'a call = Call_Enqueue tid 'a | Call_Dequeue tid

fun run_calls ::
  "'a call list \<Rightarrow> 'a LockfreeQueue \<Rightarrow> (fault + ('a option list \<times> 'a LockfreeQueue)) option" where
  "run_calls [] q = Some (Inr ([], q))"
| "run_calls (Call_Enqueue t v # cs) q =
     (case Enqueue t v q of
        None \<Rightarrow> None
      | Some (Inl f) \<Rightarrow> Some (Inl f)
      | Some (Inr q') \<Rightarrow> run_calls cs q')"
| "run_calls (Call_Dequeue t # cs) q =
     (case Dequeue t q of
        None \<Rightarrow> None
      | Some (Inl f) \<Rightarrow> Some (Inl f)
      | Some (Inr (r, q')) \<Rightarrow>
          (case run_calls cs q' of
             None \<Rightarrow> None
           | Some (Inl f) \<Rightarrow> Some (Inl f)
           | Some (Inr (rs, q'')) \<Rightarrow> Some (Inr (r # rs, q''))))"

text \<open>
  The specification's view of the same client: a FIFO of values, \<open>Dequeue\<close> on the
  empty FIFO giving the empty optional.
\<close>

fun fifo :: "'a call list \<Rightarrow> 'a list \<Rightarrow> 'a option list \<times> 'a list" where
  "fifo [] xs = ([], xs)"
| "fifo (Call_Enqueue t v # cs) xs = fifo cs (xs @ [v])"
| "fifo (Call_Dequeue t # cs) [] = (case fifo cs [] of (rs, ys) \<Rightarrow> (None # rs, ys))"
| "fifo (Call_Dequeue t # cs) (x # xs) = (case fifo cs xs of (rs, ys) \<Rightarrow> (Some x # rs, ys))"

text \<open>
  The queue a sequential client reaches from a fresh queue with default value \<open>d\<close>
  after enqueuing the values \<open>vs\<close> and dequeuing the first \<open>h\<close> of them: node \<open>i\<close>
  holds the \<open>i\<close>-th value and links to node \<open>i + 1\<close>, the head is node \<open>h\<close>, the
  tail the last node, and the nodes before the head have been retired in order.
\<close>

definition qnode :: "'a \<Rightarrow> 'a list \<Rightarrow> nat \<Rightarrow> 'a Node" where
  "qnode d vs i =
     \<lparr>m_value = (d # vs) ! i,
      m_next = (if i < length vs then \<lparr>m_ptr = Some (Suc i), m_count = 1\<rparr> else Pointer_default)\<rparr>"

definition qstate :: "'a \<Rightarrow> 'a list \<Rightarrow> nat \<Rightarrow> 'a LockfreeQueue" where
  "qstate d vs h =
     \<lparr>m_head = \<lparr>m_ptr = Some h, m_count = of_nat h\<rparr>,
      m_tail = \<lparr>m_ptr = Some (length vs), m_count = of_nat (length vs)\<rparr>,
      m_hp = \<lparr>hazards = (\<lambda>t i. None), retired = map Some [0..<h]\<rparr>,
      heap = map (qnode d vs) [0..<Suc (length vs)]\<rparr>"

section \<open>Concurrent clients\<close>

text \<open>
  Threads call \<open>Enqueue\<close> and \<open>Dequeue\<close> concurrently; their atomic steps interleave
  in any order. An action that is not enabled, or a step that faults, has no successor.
  Every access to shared memory takes effect at once and in program order: the
  \<open>std::memory_order\<close> arguments of the source are not modelled.
\<close>

datatype 'a thread = Idle | In_Enqueue "'a enq_local" | In_Dequeue "'a deq_local"

record 'a system =
  queue :: "'a LockfreeQueue"
  threads :: "tid \<Rightarrow> 'a thread"

datatype 'a action = Invoke_Enqueue tid 'a | Invoke_Dequeue tid | Step tid | Return tid

definition system_init :: "'a \<Rightarrow> 'a system" where
  "system_init dflt = \<lparr>queue = LockfreeQueue_init dflt, threads = (\<lambda>t. Idle)\<rparr>"

fun exec :: "'a action \<Rightarrow> 'a system \<Rightarrow> 'a system option" where
  "exec (Invoke_Enqueue t v) s =
     (case threads s t of
        Idle \<Rightarrow> Some (s\<lparr>threads := (threads s)(t := In_Enqueue (enq_start v))\<rparr>)
      | _ \<Rightarrow> None)"
| "exec (Invoke_Dequeue t) s =
     (case threads s t of
        Idle \<Rightarrow> Some (s\<lparr>threads := (threads s)(t := In_Dequeue deq_start)\<rparr>)
      | _ \<Rightarrow> None)"
| "exec (Step t) s =
     (case threads s t of
        Idle \<Rightarrow> None
      | In_Enqueue l \<Rightarrow>
          if e_pc l = E_return then None
          else (case enq_step t (queue s) l of
                  Inl f \<Rightarrow> None
                | Inr (q', l') \<Rightarrow> Some \<lparr>queue = q', threads = (threads s)(t := In_Enqueue l')\<rparr>)
      | In_Dequeue l \<Rightarrow>
          if d_pc l = D_return then None
          else (case deq_step t (queue s) l of
                  Inl f \<Rightarrow> None
                | Inr (q', l') \<Rightarrow> Some \<lparr>queue = q', threads = (threads s)(t := In_Dequeue l')\<rparr>))"
| "exec (Return t) s =
     (case threads s t of
        Idle \<Rightarrow> None
      | In_Enqueue l \<Rightarrow>
          if e_pc l = E_return then Some (s\<lparr>threads := (threads s)(t := Idle)\<rparr>) else None
      | In_Dequeue l \<Rightarrow>
          if d_pc l = D_return then Some (s\<lparr>threads := (threads s)(t := Idle)\<rparr>) else None)"

fun run :: "'a action list \<Rightarrow> 'a system \<Rightarrow> 'a system option" where
  "run [] s = Some s"
| "run (a # as) s = (case exec a s of None \<Rightarrow> None | Some s' \<Rightarrow> run as s')"

section \<open>Invariants of the concurrent system\<close>

text \<open>
  The nodes ever linked into the list, in link order, form a list \<open>as\<close> that starts with
  the first sentinel. \<open>pos as a\<close> is the position of node \<open>a\<close> in it; \<open>npos as p\<close> is the
  position of the node a \<open>Node *\<close> points to, the length of \<open>as\<close> for a null pointer or a
  node that is not on the list.
\<close>

definition pos :: "addr list \<Rightarrow> addr \<Rightarrow> nat" where
  "pos as a = length (takeWhile (\<lambda>x. x \<noteq> a) as)"

definition npos :: "addr list \<Rightarrow> node_ptr \<Rightarrow> nat" where
  "npos as p = (case p of None \<Rightarrow> length as | Some a \<Rightarrow> pos as a)"

text \<open>The successor of a listed node: the next node of \<open>as\<close>, null for the last.\<close>

definition succ_of :: "addr list \<Rightarrow> addr \<Rightarrow> node_ptr" where
  "succ_of as a = (if Suc (pos as a) < length as then Some (as ! Suc (pos as a)) else None)"

text \<open>
  The shared state: the listed nodes are distinct and allocated, each links to its
  successor (the last to none), head and tail are on the list, head
  not after tail, and tail at the last node or the one before it.
\<close>

definition list_inv :: "addr list \<Rightarrow> 'a LockfreeQueue \<Rightarrow> bool" where
  "list_inv as q =
     (distinct as \<and> (\<forall>a \<in> set as. a < length (heap q)) \<and>
      (\<forall>a \<in> set as. m_ptr (m_next (heap q ! a)) = succ_of as a) \<and>
      npos as (m_ptr (m_head q)) \<le> npos as (m_ptr (m_tail q)) \<and>
      npos as (m_ptr (m_tail q)) < length as \<and>
      length as \<le> npos as (m_ptr (m_tail q)) + 2)"

text \<open>A node allocated by \<open>Enqueue\<close> and not linked yet.\<close>

definition unlinked :: "addr list \<Rightarrow> 'a Node list \<Rightarrow> node_ptr \<Rightarrow> bool" where
  "unlinked as H p =
     (case p of
        None \<Rightarrow> False
      | Some n \<Rightarrow> n < length H \<and> n \<notin> set as \<and> m_ptr (m_next (H ! n)) = None)"

text \<open>
  What a thread knows at each statement of \<open>Enqueue\<close>: its snapshot of tail is a listed
  node not after the current tail; a non-null \<open>next\<close> it has read is the successor of
  that node; after the linking loop its own node is that successor.
\<close>

definition enq_inv :: "addr list \<Rightarrow> 'a LockfreeQueue \<Rightarrow> 'a enq_local \<Rightarrow> bool" where
  "enq_inv as q l =
     (case e_pc l of
        E_new \<Rightarrow> True
      | E_load_tail \<Rightarrow> unlinked as (heap q) (e_node l)
      | E_add_hazard \<Rightarrow>
          unlinked as (heap q) (e_node l) \<and>
          npos as (m_ptr (e_tail l)) \<le> npos as (m_ptr (m_tail q))
      | E_validate \<Rightarrow>
          unlinked as (heap q) (e_node l) \<and>
          npos as (m_ptr (e_tail l)) \<le> npos as (m_ptr (m_tail q))
      | E_load_next \<Rightarrow>
          unlinked as (heap q) (e_node l) \<and>
          npos as (m_ptr (e_tail l)) \<le> npos as (m_ptr (m_tail q))
      | E_link \<Rightarrow>
          unlinked as (heap q) (e_node l) \<and>
          npos as (m_ptr (e_tail l)) \<le> npos as (m_ptr (m_tail q)) \<and>
          m_ptr (e_next l) = None
      | E_help \<Rightarrow>
          unlinked as (heap q) (e_node l) \<and>
          npos as (m_ptr (e_tail l)) \<le> npos as (m_ptr (m_tail q)) \<and>
          npos as (m_ptr (e_next l)) = Suc (npos as (m_ptr (e_tail l))) \<and>
          npos as (m_ptr (e_next l)) < length as
      | E_swing \<Rightarrow>
          npos as (m_ptr (e_tail l)) \<le> npos as (m_ptr (m_tail q)) \<and>
          npos as (e_node l) = Suc (npos as (m_ptr (e_tail l))) \<and>
          npos as (e_node l) < length as
      | E_return \<Rightarrow> True)"

text \<open>
  What a thread knows at each statement of \<open>Dequeue\<close>: its snapshot of head is a listed
  node not after the current head, its snapshot of tail one not after the current tail
  and not before its snapshot of head, and a non-null \<open>next\<close> it has read is the
  successor of its snapshot of head.
\<close>

definition deq_inv :: "addr list \<Rightarrow> 'a LockfreeQueue \<Rightarrow> 'a deq_local \<Rightarrow> bool" where
  "deq_inv as q l =
     (case d_pc l of
        D_load_head \<Rightarrow> True
      | D_hazard_head \<Rightarrow> npos as (m_ptr (d_head l)) \<le> npos as (m_ptr (m_head q))
      | D_validate \<Rightarrow> npos as (m_ptr (d_head l)) \<le> npos as (m_ptr (m_head q))
      | D_load_tail \<Rightarrow> npos as (m_ptr (d_head l)) \<le> npos as (m_ptr (m_head q))
      | D_load_next \<Rightarrow>
          npos as (m_ptr (d_head l)) \<le> npos as (m_ptr (m_head q)) \<and>
          npos as (m_ptr (d_tail l)) \<le> npos as (m_ptr (m_tail q)) \<and>
          npos as (m_ptr (d_head l)) \<le> npos as (m_ptr (d_tail l))
      | D_hazard_next \<Rightarrow>
          npos as (m_ptr (d_head l)) \<le> npos as (m_ptr (m_head q)) \<and>
          npos as (m_ptr (d_tail l)) \<le> npos as (m_ptr (m_tail q)) \<and>
          npos as (m_ptr (d_head l)) \<le> npos as (m_ptr (d_tail l)) \<and>
          (m_ptr (d_next l) = None \<or>
           npos as (m_ptr (d_next l)) = Suc (npos as (m_ptr (d_head l))) \<and>
           npos as (m_ptr (d_next l)) < length as)
      | D_revalidate \<Rightarrow>
          npos as (m_ptr (d_head l)) \<le> npos as (m_ptr (m_head q)) \<and>
          npos as (m_ptr (d_tail l)) \<le> npos as (m_ptr (m_tail q)) \<and>
          npos as (m_ptr (d_head l)) \<le> npos as (m_ptr (d_tail l)) \<and>
          (m_ptr (d_next l) = None \<or>
           npos as (m_ptr (d_next l)) = Suc (npos as (m_ptr (d_head l))) \<and>
           npos as (m_ptr (d_next l)) < length as)
      | D_help \<Rightarrow>
          npos as (m_ptr (d_head l)) \<le> npos as (m_ptr (m_head q)) \<and>
          npos as (m_ptr (d_tail l)) \<le> npos as (m_ptr (m_tail q)) \<and>
          npos as (m_ptr (d_tail l)) = npos as (m_ptr (d_head l)) \<and>
          npos as (m_ptr (d_next l)) = Suc (npos as (m_ptr (d_head l))) \<and>
          npos as (m_ptr (d_next l)) < length as
      | D_copy \<Rightarrow>
          npos as (m_ptr (d_head l)) \<le> npos as (m_ptr (m_head q)) \<and>
          npos as (m_ptr (d_tail l)) \<le> npos as (m_ptr (m_tail q)) \<and>
          npos as (m_ptr (d_head l)) < npos as (m_ptr (d_tail l)) \<and>
          npos as (m_ptr (d_next l)) = Suc (npos as (m_ptr (d_head l))) \<and>
          npos as (m_ptr (d_next l)) < length as
      | D_advance \<Rightarrow>
          npos as (m_ptr (d_head l)) \<le> npos as (m_ptr (m_head q)) \<and>
          npos as (m_ptr (d_tail l)) \<le> npos as (m_ptr (m_tail q)) \<and>
          npos as (m_ptr (d_head l)) < npos as (m_ptr (d_tail l)) \<and>
          npos as (m_ptr (d_next l)) = Suc (npos as (m_ptr (d_head l))) \<and>
          npos as (m_ptr (d_next l)) < length as
      | D_retire \<Rightarrow> True
      | D_return \<Rightarrow> True)"

definition thread_inv :: "addr list \<Rightarrow> 'a LockfreeQueue \<Rightarrow> 'a thread \<Rightarrow> bool" where
  "thread_inv as q th =
     (case th of
        Idle \<Rightarrow> True
      | In_Enqueue l \<Rightarrow> enq_inv as q l
      | In_Dequeue l \<Rightarrow> deq_inv as q l)"

text \<open>The node a thread has allocated in its current \<open>Enqueue\<close>.\<close>

definition own_node :: "'a thread \<Rightarrow> node_ptr" where
  "own_node th =
     (case th of
        In_Enqueue l \<Rightarrow> (if e_pc l = E_new then None else e_node l)
      | _ \<Rightarrow> None)"

text \<open>The nodes of the running \<open>Enqueue\<close> calls are allocated and pairwise different.\<close>

definition nodes_apart :: "(tid \<Rightarrow> 'a thread) \<Rightarrow> 'a Node list \<Rightarrow> bool" where
  "nodes_apart ths H =
     ((\<forall>t n. own_node (ths t) = Some n \<longrightarrow> n < length H) \<and>
      (\<forall>t t' n. t \<noteq> t' \<longrightarrow> own_node (ths t) = Some n \<longrightarrow> own_node (ths t') \<noteq> Some n))"

definition sys_inv :: "addr list \<Rightarrow> 'a system \<Rightarrow> bool" where
  "sys_inv as s =
     (list_inv as (queue s) \<and>
      (\<forall>tid. thread_inv as (queue s) (threads s tid)) \<and>
      nodes_apart (threads s) (heap (queue s)))"

text \<open>
  How one step changes the list and the memory, as far as the other threads' knowledge
  depends on it: the list grows by at most one node at its end, unlisted nodes keep their
  contents, head and tail do not move backwards.
\<close>

definition extends :: "addr list \<Rightarrow> 'a LockfreeQueue \<Rightarrow> addr list \<Rightarrow> 'a LockfreeQueue \<Rightarrow> bool" where
  "extends as q as' q' =
     ((as' = as \<or> (\<exists>n. n \<notin> set as \<and> as' = as @ [n])) \<and>
      length (heap q) \<le> length (heap q') \<and>
      (\<forall>b < length (heap q). b \<notin> set as \<longrightarrow> heap q' ! b = heap q ! b) \<and>
      npos as (m_ptr (m_head q)) \<le> npos as' (m_ptr (m_head q')) \<and>
      npos as (m_ptr (m_tail q)) \<le> npos as' (m_ptr (m_tail q')))"

text \<open>
  The list of the queue as the memory holds it: the nodes reached from the head by
  following \<open>m_next\<close>. The first is the sentinel, the last the true last node.
\<close>

fun nodes_from :: "nat \<Rightarrow> 'a Node list \<Rightarrow> node_ptr \<Rightarrow> addr list" where
  "nodes_from 0 H p = []"
| "nodes_from (Suc k) H p =
     (case p of
        None \<Rightarrow> []
      | Some a \<Rightarrow> if a < length H then a # nodes_from k H (m_ptr (m_next (H ! a))) else [])"

definition queue_nodes :: "'a LockfreeQueue \<Rightarrow> addr list" where
  "queue_nodes q = nodes_from (length (heap q)) (heap q) (m_ptr (m_head q))"



text \<open>
  How an action changes the list of linked nodes and the position of head: only the step
  that leaves the linking loop of \<open>Enqueue\<close> appends a node, the caller's own; only the
  step of \<open>Dequeue\<close> that reaches its retire statement moves head, by one node.
\<close>

definition step_rel :: "addr list \<Rightarrow> 'a system \<Rightarrow> 'a action \<Rightarrow> addr list \<Rightarrow> 'a system \<Rightarrow> bool" where
  "step_rel as s a as' s' =
     (case a of
        Step t \<Rightarrow>
          (case threads s' t of
             Idle \<Rightarrow> False
           | In_Enqueue l' \<Rightarrow>
               (as' = as \<longleftrightarrow> e_pc l' \<noteq> E_swing) \<and>
               (as' \<noteq> as \<longrightarrow> (\<exists>n. own_node (threads s t) = Some n \<and> as' = as @ [n])) \<and>
               m_ptr (m_head (queue s')) = m_ptr (m_head (queue s))
           | In_Dequeue l' \<Rightarrow>
               as' = as \<and>
               (if d_pc l' = D_retire
                then npos as (m_ptr (m_head (queue s'))) = Suc (npos as (m_ptr (m_head (queue s))))
                else m_ptr (m_head (queue s')) = m_ptr (m_head (queue s))))
      | _ \<Rightarrow> as' = as)"

section \<open>Histories\<close>

text \<open>
  The history of a run: the values passed to \<open>Enqueue\<close>, in call order, and the values
  returned by the \<open>Dequeue\<close> calls that have returned a present optional, in return order.
\<close>

fun enqueued :: "'a action list \<Rightarrow> 'a list" where
  "enqueued [] = []"
| "enqueued (Invoke_Enqueue t v # acts) = v # enqueued acts"
| "enqueued (a # acts) = enqueued acts"

definition result_of :: "'a action \<Rightarrow> 'a system \<Rightarrow> 'a list" where
  "result_of a s =
     (case a of
        Return t \<Rightarrow>
          (case threads s t of
             In_Dequeue l \<Rightarrow> (case d_result l of None \<Rightarrow> [] | Some v \<Rightarrow> [v])
           | _ \<Rightarrow> [])
      | _ \<Rightarrow> [])"

fun returned :: "'a action list \<Rightarrow> 'a system \<Rightarrow> 'a list" where
  "returned [] s = []"
| "returned (a # acts) s =
     (case exec a s of None \<Rightarrow> [] | Some s' \<Rightarrow> result_of a s @ returned acts s')"

text \<open>Draining a queue: \<open>Dequeue\<close> until it returns the empty optional, collecting the values.\<close>

partial_function (option) drain ::
  "tid \<Rightarrow> 'a LockfreeQueue \<Rightarrow> (fault + ('a list \<times> 'a LockfreeQueue)) option" where
  "drain t q =
     (case Dequeue t q of
        None \<Rightarrow> None
      | Some (Inl f) \<Rightarrow> Some (Inl f)
      | Some (Inr (None, q')) \<Rightarrow> Some (Inr ([], q'))
      | Some (Inr (Some v, q')) \<Rightarrow>
          Option.bind (drain t q')
            (\<lambda>r. case r of Inl f \<Rightarrow> Some (Inl f) | Inr (vs, q'') \<Rightarrow> Some (Inr (v # vs, q''))))"

text \<open>
  The values of the nodes linked so far, the sentinel of the fresh queue left out; the
  values a running \<open>Enqueue\<close> has not linked yet; the values a \<open>Dequeue\<close> has taken out
  and not returned yet.
\<close>

definition linked_values :: "addr list \<Rightarrow> 'a LockfreeQueue \<Rightarrow> 'a list" where
  "linked_values as q = map (\<lambda>a. m_value (heap q ! a)) (tl as)"

definition pending :: "'a thread \<Rightarrow> 'a multiset" where
  "pending th =
     (case th of
        In_Enqueue l \<Rightarrow> (if e_pc l = E_swing \<or> e_pc l = E_return then {#} else {#e_value l#})
      | _ \<Rightarrow> {#})"

definition opt_mset :: "'a option \<Rightarrow> 'a multiset" where
  "opt_mset x = (case x of None \<Rightarrow> {#} | Some v \<Rightarrow> {#v#})"

definition inflight :: "'a thread \<Rightarrow> 'a multiset" where
  "inflight th =
     (case th of
        In_Dequeue l \<Rightarrow>
          (if d_pc l = D_retire then opt_mset (d_ret l)
           else if d_pc l = D_return then opt_mset (d_result l) else {#})
      | _ \<Rightarrow> {#})"

text \<open>The sum of a multiset-valued function over the threads that run a call.\<close>

definition total_of :: "('a thread \<Rightarrow> 'b multiset) \<Rightarrow> (tid \<Rightarrow> 'a thread) \<Rightarrow> 'b multiset" where
  "total_of f ths = (\<Sum>t | ths t \<noteq> Idle. f (ths t))"

text \<open>
  A running \<open>Enqueue\<close> that has allocated and not yet linked its node finds its value stored
  there; a \<open>Dequeue\<close> about to advance head holds a copy of the value of the node it read
  as \<open>head.next\<close>.
\<close>

definition value_inv :: "'a LockfreeQueue \<Rightarrow> 'a thread \<Rightarrow> bool" where
  "value_inv q th =
     (case th of
        Idle \<Rightarrow> True
      | In_Enqueue l \<Rightarrow>
          e_pc l = E_new \<or> e_pc l = E_swing \<or> e_pc l = E_return \<or>
          (case e_node l of
             None \<Rightarrow> False
           | Some n \<Rightarrow> n < length (heap q) \<and> m_value (heap q ! n) = e_value l)
      | In_Dequeue l \<Rightarrow>
          d_pc l \<noteq> D_advance \<or>
          (case m_ptr (d_next l) of
             None \<Rightarrow> False
           | Some b \<Rightarrow> b < length (heap q) \<and> d_ret l = Some (m_value (heap q ! b))))"

text \<open>
  The history invariant, for the list \<open>as\<close> of linked nodes, the enqueued values \<open>es\<close> and
  the returned values \<open>rs\<close>: the values linked and the values still to be linked are the
  values enqueued; the values of the nodes head has passed are the values returned and the
  values taken out and not returned yet.
\<close>

definition hist_inv :: "addr list \<Rightarrow> 'a list \<Rightarrow> 'a list \<Rightarrow> 'a system \<Rightarrow> bool" where
  "hist_inv as es rs s =
     (finite {t. threads s t \<noteq> Idle} \<and> (\<forall>t. value_inv (queue s) (threads s t)) \<and>
      mset (linked_values as (queue s)) + total_of pending (threads s) = mset es \<and>
      mset (take (npos as (m_ptr (m_head (queue s)))) (linked_values as (queue s)))
        = mset rs + total_of inflight (threads s))"

section \<open>The retire log\<close>

text \<open>
  The node a \<open>Dequeue\<close> that has advanced head is about to hand to \<open>RetireHazard\<close>.
\<close>

definition retiring :: "'a thread \<Rightarrow> node_ptr multiset" where
  "retiring th =
     (case th of
        In_Dequeue l \<Rightarrow> (if d_pc l = D_retire then {#m_ptr (d_head l)#} else {#})
      | _ \<Rightarrow> {#})"

text \<open>
  The retire invariant, for the list \<open>as\<close> of linked nodes: the list starts with the first
  sentinel; the nodes retired and the nodes about to be retired are the nodes before head.
\<close>

definition retire_inv :: "addr list \<Rightarrow> 'a system \<Rightarrow> bool" where
  "retire_inv as s =
     (as \<noteq> [] \<and> hd as = 0 \<and>
      mset (retired (m_hp (queue s))) + total_of retiring (threads s)
        = mset (map Some (take (npos as (m_ptr (m_head (queue s)))) as)))"

text \<open>
  All nodes ever linked, as the memory holds them: the nodes reached from the first
  sentinel (address 0) by following \<open>m_next\<close>. The former heads are those before head.
\<close>

definition all_nodes :: "'a LockfreeQueue \<Rightarrow> addr list" where
  "all_nodes q = nodes_from (length (heap q)) (heap q) (Some 0)"

definition former_heads :: "'a LockfreeQueue \<Rightarrow> addr list" where
  "former_heads q = takeWhile (\<lambda>a. Some a \<noteq> m_ptr (m_head q)) (all_nodes q)"

section \<open>The steps of one call\<close>





section \<open>Calls without interference\<close>

lemmas step_defs =
  deq_step_def enq_step_def Pointer_neq_def Pointer_eq_def deref_def deq_release_def
  enq_release_def AddHazard_def ReleaseHazard_def RetireHazard_def Pointer_default_def
  new_Node_def CompareExchange_def Load_def Store_def

lemma Dequeue_empty:
  assumes "m_ptr (m_head q) = Some h" "h < length (heap q)" "m_ptr (m_next (heap q ! h)) = None"
  shows "Dequeue t q = Some (Inr (None, deq_release t q))"
  using assms
  by (simp add: Dequeue_def deq_start_def deq_run.simps step_defs)

lemma Dequeue_nonempty:
  assumes "m_ptr (m_head q) = Some h" "h < length (heap q)"
    "m_ptr (m_next (heap q ! h)) = Some n" "n < length (heap q)" "n \<noteq> h"
  shows "Dequeue t q = Some (Inr (Some (m_value (heap q ! n)),
     deq_release t (q\<lparr>m_head := \<lparr>m_ptr = Some n, m_count = m_count (m_head q) + 1\<rparr>,
        m_tail := (if m_ptr (m_tail q) = Some h
                   then \<lparr>m_ptr = Some n, m_count = m_count (m_tail q) + 1\<rparr> else m_tail q),
        m_hp := RetireHazard (Some h) (m_hp q)\<rparr>)))"
proof (cases "m_ptr (m_tail q) = Some h")
  case True
  with assms show ?thesis
    by (simp add: Dequeue_def deq_start_def deq_run.simps step_defs)
next
  case False
  with assms show ?thesis
    by (simp add: Dequeue_def deq_start_def deq_run.simps step_defs)
qed

lemma Enqueue_at_last:
  assumes "m_ptr (m_tail q) = Some a" "a < length (heap q)" "m_ptr (m_next (heap q ! a)) = None"
  shows "Enqueue t v q = Some (Inr (enq_release t
     (q\<lparr>m_tail := \<lparr>m_ptr = Some (length (heap q)), m_count = m_count (m_tail q) + 1\<rparr>,
        heap := (heap q @ [\<lparr>m_value = v, m_next = Pointer_default\<rparr>])
                  [a := (heap q ! a)\<lparr>m_next := \<lparr>m_ptr = Some (length (heap q)),
                        m_count = m_count (m_next (heap q ! a)) + 1\<rparr>\<rparr>]\<rparr>)))"
  using assms
  by (simp add: Enqueue_def enq_start_def enq_run.simps step_defs nth_append)

subsection \<open>The states of a sequential client\<close>

lemma qstate_init: "LockfreeQueue_init d = qstate d [] 0"
  by (simp add: LockfreeQueue_init_def qstate_def qnode_def HPContext_Instance_def)

lemma enq_release_idle:
  "m_hp q = \<lparr>hazards = (\<lambda>t i. None), retired = r\<rparr> \<Longrightarrow> enq_release t q = q"
  by (simp add: enq_release_def ReleaseHazard_def fun_eq_iff)

lemma deq_release_idle:
  "m_hp q = \<lparr>hazards = (\<lambda>t i. None), retired = r\<rparr> \<Longrightarrow> deq_release t q = q"
  by (simp add: deq_release_def ReleaseHazard_def fun_eq_iff)

lemma qstate_heap_nth: "i \<le> length vs \<Longrightarrow> heap (qstate d vs h) ! i = qnode d vs i"
  by (simp add: qstate_def nth_append del: upt_Suc)

lemma qstate_heap_length: "length (heap (qstate d vs h)) = Suc (length vs)"
  by (simp add: qstate_def)

lemma Enqueue_qstate: "Enqueue t v (qstate d vs h) = Some (Inr (qstate d (vs @ [v]) h))"
proof -
  let ?q = "qstate d vs h"
  have a: "m_ptr (m_tail ?q) = Some (length vs)" by (simp add: qstate_def)
  have b: "length vs < length (heap ?q)" by (simp add: qstate_def)
  have c: "m_ptr (m_next (heap ?q ! length vs)) = None"
    by (simp add: qstate_heap_nth qnode_def Pointer_default_def)
  have hp: "(heap ?q @ [\<lparr>m_value = v, m_next = Pointer_default\<rparr>])
              [length vs := (heap ?q ! length vs)\<lparr>m_next := \<lparr>m_ptr = Some (length (heap ?q)),
                        m_count = m_count (m_next (heap ?q ! length vs)) + 1\<rparr>\<rparr>]
            = map (qnode d (vs @ [v])) [0..<Suc (length (vs @ [v]))]"
    apply (rule nth_equalityI)
     apply (simp add: qstate_def)
    apply (simp add: qstate_heap_length qstate_heap_nth nth_append nth_list_update del: upt_Suc)
    apply (auto simp: qnode_def qstate_heap_nth nth_append Pointer_default_def nth_Cons' less_Suc_eq)
    done
  show ?thesis
    apply (simp only: Enqueue_at_last [OF a b c] hp)
    apply (subst enq_release_idle [where r = "map Some [0..<h]"])
     apply (simp add: qstate_def)
    apply (simp add: qstate_def)
    done
qed

lemma Dequeue_qstate_empty:
  "Dequeue t (qstate d vs (length vs)) = Some (Inr (None, qstate d vs (length vs)))"
proof -
  let ?q = "qstate d vs (length vs)"
  have a: "m_ptr (m_head ?q) = Some (length vs)" by (simp add: qstate_def)
  have b: "length vs < length (heap ?q)" by (simp add: qstate_def)
  have c: "m_ptr (m_next (heap ?q ! length vs)) = None"
    by (simp add: qstate_heap_nth qnode_def Pointer_default_def)
  have r: "deq_release t ?q = ?q"
    by (rule deq_release_idle) (simp add: qstate_def)
  show ?thesis
    by (simp only: Dequeue_empty [OF a b c] r)
qed

lemma Dequeue_qstate_nonempty:
  assumes "h < length vs"
  shows "Dequeue t (qstate d vs h) = Some (Inr (Some (vs ! h), qstate d vs (Suc h)))"
proof -
  let ?q = "qstate d vs h"
  have a: "m_ptr (m_head ?q) = Some h" by (simp add: qstate_def)
  have b: "h < length (heap ?q)" using assms by (simp add: qstate_def)
  have c: "m_ptr (m_next (heap ?q ! h)) = Some (Suc h)"
    using assms by (simp add: qstate_heap_nth qnode_def Pointer_default_def)
  have d: "Suc h < length (heap ?q)" using assms by (simp add: qstate_def)
  have e: "Suc h \<noteq> h" by simp
  have v: "m_value (heap ?q ! Suc h) = vs ! h"
    using assms by (simp add: qstate_heap_nth qnode_def)
  show ?thesis
    apply (simp only: Dequeue_nonempty [OF a b c d e] v)
    apply (subst deq_release_idle [where r = "map Some [0..<Suc h]"])
    using assms
     apply (simp add: qstate_def RetireHazard_def)
    using assms
    apply (simp add: qstate_def RetireHazard_def)
    done
qed

lemma destroy_qstate:
  "h \<le> length vs \<Longrightarrow>
   LockfreeQueue_destroy t (qstate d vs h) = Some (Inr (qstate d vs (length vs)))"
proof (induction "length vs - h" arbitrary: h)
  case 0
  then have "h = length vs" by simp
  then show ?case
    by (subst LockfreeQueue_destroy.simps) (simp add: Dequeue_qstate_empty)
next
  case (Suc k)
  then have lt: "h < length vs" and k: "k = length vs - Suc h" and le: "Suc h \<le> length vs"
    by simp_all
  show ?case
    by (subst LockfreeQueue_destroy.simps)
      (simp add: Dequeue_qstate_nonempty [OF lt] Suc.hyps(1) [OF k le])
qed

lemma run_enqueues_qstate:
  "run_calls (map (Call_Enqueue t) ws) (qstate d vs h) = Some (Inr ([], qstate d (vs @ ws) h))"
  by (induction ws arbitrary: vs) (simp_all add: Enqueue_qstate)

lemma run_calls_qstate:
  "h \<le> length vs \<Longrightarrow>
   \<exists>ws k. k \<le> length ws \<and>
     run_calls cs (qstate d vs h) = Some (Inr (fst (fifo cs (drop h vs)), qstate d ws k)) \<and>
     snd (fifo cs (drop h vs)) = drop k ws"
proof (induction cs arbitrary: vs h)
  case Nil
  then show ?case by auto
next
  case (Cons c cs)
  show ?case
  proof (cases c)
    case (Call_Enqueue t v)
    from Cons.prems have "h \<le> length (vs @ [v])" by simp
    from Cons.IH [OF this] Cons.prems show ?thesis
      by (simp add: Call_Enqueue Enqueue_qstate)
  next
    case (Call_Dequeue t)
    show ?thesis
    proof (cases "h < length vs")
      case True
      then have le: "Suc h \<le> length vs" by simp
      from True have dr: "drop h vs = vs ! h # drop (Suc h) vs"
        by (simp add: Cons_nth_drop_Suc)
      from Cons.IH [OF le] obtain ws k where "k \<le> length ws"
        "run_calls cs (qstate d vs (Suc h)) =
           Some (Inr (fst (fifo cs (drop (Suc h) vs)), qstate d ws k))"
        "snd (fifo cs (drop (Suc h) vs)) = drop k ws" by blast
      then show ?thesis
        apply (intro exI [of _ ws] exI [of _ k])
        apply (simp add: Call_Dequeue Dequeue_qstate_nonempty [OF True] dr case_prod_beta)
        done
    next
      case False
      with Cons.prems have eq: "h = length vs" by simp
      from Cons.IH [OF Cons.prems] obtain ws k where "k \<le> length ws"
        "run_calls cs (qstate d vs h) = Some (Inr (fst (fifo cs (drop h vs)), qstate d ws k))"
        "snd (fifo cs (drop h vs)) = drop k ws" by blast
      then show ?thesis
        apply (intro exI [of _ ws] exI [of _ k])
        apply (simp add: Call_Dequeue eq Dequeue_qstate_empty case_prod_beta)
        done
    qed
  qed
qed

lemma run_dequeues_empty:
  "run_calls (replicate n (Call_Dequeue t)) (qstate d vs (length vs)) =
     Some (Inr (replicate n None, qstate d vs (length vs)))"
  by (induction n) (simp_all add: Dequeue_qstate_empty)

lemma seq_reachable_qstate:
  assumes "run_calls cs (LockfreeQueue_init d) = Some (Inr (rs, q))"
  shows "\<exists>ws k. k \<le> length ws \<and> q = qstate d ws k \<and> fifo cs [] = (rs, drop k ws)"
proof -
  have "0 \<le> length ([] :: 'a list)" by simp
  from run_calls_qstate [OF this, of cs d] assms show ?thesis
    by (auto simp: qstate_init prod_eq_iff)
qed


subsection \<open>Longer sequential histories\<close>

lemma run_enqueues_then:
  "run_calls (map (Call_Enqueue t) ws @ cs) (qstate d vs h) = run_calls cs (qstate d (vs @ ws) h)"
  by (induction ws arbitrary: vs) (simp_all add: Enqueue_qstate)

lemma run_dequeues_qstate:
  "h + n \<le> length vs \<Longrightarrow>
   run_calls (replicate n (Call_Dequeue t)) (qstate d vs h) =
     Some (Inr (map Some (take n (drop h vs)), qstate d vs (h + n)))"
proof (induction n arbitrary: h)
  case 0
  then show ?case by simp
next
  case (Suc n)
  then have lt: "h < length vs" and le: "Suc h + n \<le> length vs" by simp_all
  from lt have dr: "drop h vs = vs ! h # drop (Suc h) vs"
    by (simp add: Cons_nth_drop_Suc)
  show ?case
    by (simp add: Dequeue_qstate_nonempty [OF lt] Suc.IH [OF le] dr)
qed

lemma qstate_head_count: "m_count (m_head (qstate d vs h)) = of_nat h"
  by (simp add: qstate_def)


section \<open>Steps of concurrent threads\<close>

lemma enq_step_slot:
  assumes "enq_step t q l = Inr (q', l')" "Load sl q = Inr p" "Load sl q' = Inr p'" "p' \<noteq> p"
  shows "m_count p' = m_count p + 1"
  using assms
  by (cases "e_pc l"; cases sl)
    (auto simp: step_defs nth_append nth_list_update split: if_splits option.splits sum.splits)

lemma deq_step_slot:
  assumes "deq_step t q l = Inr (q', l')" "Load sl q = Inr p" "Load sl q' = Inr p'" "p' \<noteq> p"
  shows "m_count p' = m_count p + 1"
  using assms
  by (cases "d_pc l"; cases sl)
    (auto simp: step_defs nth_append nth_list_update split: if_splits option.splits sum.splits)

lemma exec_slot:
  assumes "exec a s = Some s'" "Load sl (queue s) = Inr p" "Load sl (queue s') = Inr p'" "p' \<noteq> p"
  shows "m_count p' = m_count p + 1"
proof (cases a)
  case (Step t)
  show ?thesis
  proof (cases "threads s t")
    case Idle
    with assms Step show ?thesis by simp
  next
    case (In_Enqueue l)
    with assms Step show ?thesis
      by (auto split: if_splits sum.splits dest: enq_step_slot)
  next
    case (In_Dequeue l)
    with assms Step show ?thesis
      by (auto split: if_splits sum.splits dest: deq_step_slot)
  qed
qed (use assms in \<open>auto split: thread.splits if_splits\<close>)

lemma word_succ_greater: "(x :: 64 word) \<noteq> - 1 \<Longrightarrow> x < x + 1"
  using inc_less_eq_self_iff_eq [of x] by (simp add: not_le [symmetric])

lemmas sys_defs = system_init_def LockfreeQueue_init_def HPContext_Instance_def enq_start_def
  deq_start_def

section \<open>The invariant holds in every reachable state\<close>

lemma pos_less [simp]: "pos as a < length as \<longleftrightarrow> a \<in> set as"
  by (induction as) (auto simp: pos_def)

lemma pos_le: "pos as a \<le> length as"
  by (simp add: pos_def length_takeWhile_le)

lemma pos_notin: "a \<notin> set as \<Longrightarrow> pos as a = length as"
  by (induction as) (auto simp: pos_def)

lemma nth_pos [simp]: "a \<in> set as \<Longrightarrow> as ! pos as a = a"
  by (induction as) (auto simp: pos_def)

lemma pos_nth [simp]: "distinct as \<Longrightarrow> i < length as \<Longrightarrow> pos as (as ! i) = i"
  by (induction as arbitrary: i) (auto simp: pos_def nth_Cons')

lemma pos_append [simp]: "a \<in> set as \<Longrightarrow> pos (as @ bs) a = pos as a"
  by (induction as) (auto simp: pos_def)

lemma pos_append_new [simp]: "a \<notin> set as \<Longrightarrow> pos (as @ [a]) a = length as"
  by (induction as) (auto simp: pos_def)

lemma pos_inj: "a \<in> set as \<Longrightarrow> pos as a = pos as b \<Longrightarrow> a = b"
  by (metis nth_pos pos_less)

lemma npos_le: "npos as p \<le> length as"
  by (simp add: npos_def pos_le split: option.splits)

lemma npos_less: "npos as p < length as \<longleftrightarrow> (\<exists>a. p = Some a \<and> a \<in> set as)"
  by (auto simp: npos_def split: option.splits)

lemma npos_Some [simp]: "npos as (Some a) = pos as a"
  by (simp add: npos_def)

lemma npos_None [simp]: "npos as None = length as"
  by (simp add: npos_def)

lemma npos_append: "npos as p < length as \<Longrightarrow> npos (as @ [n]) p = npos as p"
  by (auto simp: npos_less)

lemma npos_inj: "npos as p < length as \<Longrightarrow> npos as p = npos as p' \<Longrightarrow> p = p'"
  by (metis npos_less npos_Some pos_inj)

lemma npos_succ_of:
  "distinct as \<Longrightarrow> a \<in> set as \<Longrightarrow> npos as (succ_of as a) = Suc (pos as a)"
  using pos_less [of as a] by (auto simp: succ_of_def simp del: pos_less)

lemma sys_inv_init: "sys_inv [0] (system_init d)"
  by (simp add: sys_inv_def list_inv_def thread_inv_def nodes_apart_def own_node_def
      sys_defs Pointer_default_def succ_of_def pos_def)

lemma npos_extend:
  "as' = as \<or> (\<exists>n. n \<notin> set as \<and> as' = as @ [n]) \<Longrightarrow> npos as p < length as \<Longrightarrow>
   npos as' p = npos as p"
  by (auto simp: npos_append)

lemma enq_stable:
  assumes inv: "enq_inv as q l" and tl: "npos as (m_ptr (m_tail q)) < length as"
    and ext: "extends as q as' q'"
    and own: "e_pc l \<noteq> E_new \<Longrightarrow> unlinked as (heap q) (e_node l) \<Longrightarrow> unlinked as' (heap q) (e_node l)"
  shows "enq_inv as' q' l"
proof -
  from ext have as': "as' = as \<or> (\<exists>n. n \<notin> set as \<and> as' = as @ [n])"
    and tm: "npos as (m_ptr (m_tail q)) \<le> npos as' (m_ptr (m_tail q'))"
    and len: "length as \<le> length as'"
    by (auto simp: extends_def)
  have keep: "\<And>p. npos as p < length as \<Longrightarrow> npos as' p = npos as p"
    using as' by (rule npos_extend)
  have un: "e_pc l \<noteq> E_new \<Longrightarrow> unlinked as (heap q) (e_node l) \<Longrightarrow> unlinked as' (heap q') (e_node l)"
    using own ext by (auto simp: unlinked_def extends_def split: option.splits)
  have tp: "npos as (m_ptr (e_tail l)) \<le> npos as (m_ptr (m_tail q)) \<Longrightarrow>
        npos as' (m_ptr (e_tail l)) \<le> npos as' (m_ptr (m_tail q')) \<and>
        npos as' (m_ptr (e_tail l)) = npos as (m_ptr (e_tail l))"
    using tl tm keep [of "m_ptr (e_tail l)"] by simp
  show ?thesis
  proof (cases "e_pc l")
    case E_help
    with inv un tp keep [of "m_ptr (e_next l)"] len show ?thesis
      by (simp add: enq_inv_def)
  next
    case E_swing
    with inv un tp keep [of "e_node l"] len show ?thesis
      by (simp add: enq_inv_def)
  qed (use inv un tp in \<open>simp_all add: enq_inv_def\<close>)
qed

lemma deq_stable:
  assumes inv: "deq_inv as q l" and tl: "npos as (m_ptr (m_tail q)) < length as"
    and hd: "npos as (m_ptr (m_head q)) \<le> npos as (m_ptr (m_tail q))"
    and ext: "extends as q as' q'"
  shows "deq_inv as' q' l"
proof -
  from ext have as': "as' = as \<or> (\<exists>n. n \<notin> set as \<and> as' = as @ [n])"
    and tm: "npos as (m_ptr (m_tail q)) \<le> npos as' (m_ptr (m_tail q'))"
    and hm: "npos as (m_ptr (m_head q)) \<le> npos as' (m_ptr (m_head q'))"
    and len: "length as \<le> length as'"
    by (auto simp: extends_def)
  have keep: "\<And>p. npos as p < length as \<Longrightarrow> npos as' p = npos as p"
    using as' by (rule npos_extend)
  have hp: "npos as (m_ptr (d_head l)) \<le> npos as (m_ptr (m_head q)) \<Longrightarrow>
        npos as' (m_ptr (d_head l)) \<le> npos as' (m_ptr (m_head q')) \<and>
        npos as' (m_ptr (d_head l)) = npos as (m_ptr (d_head l))"
    using tl hd hm keep [of "m_ptr (d_head l)"] by simp
  have tp: "npos as (m_ptr (d_tail l)) \<le> npos as (m_ptr (m_tail q)) \<Longrightarrow>
        npos as' (m_ptr (d_tail l)) \<le> npos as' (m_ptr (m_tail q')) \<and>
        npos as' (m_ptr (d_tail l)) = npos as (m_ptr (d_tail l))"
    using tl tm keep [of "m_ptr (d_tail l)"] by simp
  have np: "npos as (m_ptr (d_next l)) < length as \<Longrightarrow>
        npos as' (m_ptr (d_next l)) = npos as (m_ptr (d_next l)) \<and>
        npos as' (m_ptr (d_next l)) < length as'"
    using keep [of "m_ptr (d_next l)"] len by simp
  show ?thesis
  proof (cases "m_ptr (d_next l) = None")
    case True
    with inv hp tp show ?thesis
      by (cases "d_pc l") (simp_all add: deq_inv_def)
  next
    case False
    with inv hp tp np show ?thesis
      by (cases "d_pc l") (simp_all add: deq_inv_def)
  qed
qed

lemma list_inv_frame:
  "list_inv as q \<Longrightarrow> heap q' = heap q \<Longrightarrow> m_ptr (m_head q') = m_ptr (m_head q) \<Longrightarrow>
   m_ptr (m_tail q') = m_ptr (m_tail q) \<Longrightarrow> list_inv as q'"
  by (simp add: list_inv_def)

lemma extends_frame:
  "heap q' = heap q \<Longrightarrow> m_ptr (m_head q') = m_ptr (m_head q) \<Longrightarrow>
   m_ptr (m_tail q') = m_ptr (m_tail q) \<Longrightarrow> extends as q as q'"
  by (simp add: extends_def)


lemma listed_below_tail:
  assumes "list_inv as q" "npos as p \<le> npos as (m_ptr (m_tail q))"
  shows "\<exists>a. p = Some a \<and> a \<in> set as \<and> a < length (heap q)"
proof -
  from assms have "npos as p < length as" by (simp add: list_inv_def)
  then obtain a where "p = Some a" "a \<in> set as" by (auto simp: npos_less)
  with assms(1) show ?thesis by (simp add: list_inv_def)
qed

lemma listed_below_head:
  assumes "list_inv as q" "npos as p \<le> npos as (m_ptr (m_head q))"
  shows "\<exists>a. p = Some a \<and> a \<in> set as \<and> a < length (heap q)"
proof -
  from assms have "npos as p \<le> npos as (m_ptr (m_tail q))" by (simp add: list_inv_def)
  with assms(1) show ?thesis by (rule listed_below_tail)
qed

lemma list_inv_next:
  "list_inv as q \<Longrightarrow> a \<in> set as \<Longrightarrow>
   npos as (m_ptr (m_next (heap q ! a))) = Suc (pos as a)"
  by (simp add: list_inv_def npos_succ_of)

lemma list_inv_next_listed:
  "list_inv as q \<Longrightarrow> a \<in> set as \<Longrightarrow> m_ptr (m_next (heap q ! a)) \<noteq> None \<Longrightarrow>
   npos as (m_ptr (m_next (heap q ! a))) < length as"
  by (auto simp: list_inv_def succ_of_def split: if_splits)

lemma list_inv_advance_tail:
  assumes "list_inv as q" "heap q' = heap q" "m_ptr (m_head q') = m_ptr (m_head q)"
    "npos as (m_ptr (m_tail q')) = Suc (npos as (m_ptr (m_tail q)))"
    "npos as (m_ptr (m_tail q')) < length as"
  shows "list_inv as q'" "extends as q as q'"
  using assms by (simp_all add: list_inv_def extends_def)

lemma succ_of_append:
  "b \<in> set as \<Longrightarrow>
   succ_of (as @ [n]) b = (if Suc (pos as b) < length as then succ_of as b else Some n)"
  using pos_less [of as b]
  by (auto simp: succ_of_def nth_append simp del: pos_less)

lemma succ_of_append_new: "n \<notin> set as \<Longrightarrow> succ_of (as @ [n]) n = None"
  by (simp add: succ_of_def)

lemma list_inv_link:
  assumes li: "list_inv as q" and a: "a \<in> set as" "m_ptr (m_next (heap q ! a)) = None"
    and n: "n < length (heap q)" "n \<notin> set as" "m_ptr (m_next (heap q ! n)) = None"
    and pa: "pos as a \<le> npos as (m_ptr (m_tail q))"
    and q': "heap q' = (heap q)[a := (heap q ! a)\<lparr>m_next := \<lparr>m_ptr = Some n, m_count = c\<rparr>\<rparr>]"
      "m_head q' = m_head q" "m_tail q' = m_tail q"
  shows "list_inv (as @ [n]) q'" "extends as q (as @ [n]) q'"
    "Suc (pos as a) = length as" "npos (as @ [n]) (m_ptr (m_tail q')) = pos as a"
proof -
  from li a have "succ_of as a = None" by (simp add: list_inv_def)
  with a(1) show last: "Suc (pos as a) = length as"
    using pos_less [of as a] by (auto simp: succ_of_def simp del: pos_less split: if_splits)
  from li have tl: "npos as (m_ptr (m_tail q)) < length as"
    and hd: "npos as (m_ptr (m_head q)) \<le> npos as (m_ptr (m_tail q))"
    by (simp_all add: list_inv_def)
  with pa last have tpos: "npos as (m_ptr (m_tail q)) = pos as a" by simp
  have keep: "\<And>p. npos as p < length as \<Longrightarrow> npos (as @ [n]) p = npos as p"
    by (rule npos_append)
  from tl hd have kt: "npos (as @ [n]) (m_ptr (m_tail q)) = npos as (m_ptr (m_tail q))"
    and kh: "npos (as @ [n]) (m_ptr (m_head q)) = npos as (m_ptr (m_head q))"
    by (simp_all add: keep)
  show "npos (as @ [n]) (m_ptr (m_tail q')) = pos as a"
    by (simp add: q' kt tpos)
  from a n have an: "a \<noteq> n" by auto
  have chain: "m_ptr (m_next (heap q' ! b)) = succ_of (as @ [n]) b" if b: "b \<in> set (as @ [n])" for b
  proof (cases "b = n")
    case True
    with n an show ?thesis by (simp add: q' succ_of_append_new)
  next
    case False
    with b have bs: "b \<in> set as" by simp
    with li have bl: "b < length (heap q)" and nx: "m_ptr (m_next (heap q ! b)) = succ_of as b"
      by (simp_all add: list_inv_def)
    show ?thesis
    proof (cases "b = a")
      case True
      with bl last bs show ?thesis by (simp add: q' succ_of_append)
    next
      case False
      with bs a(1) have "pos as b \<noteq> pos as a" by (auto dest: pos_inj)
      with bs last have "Suc (pos as b) < length as"
        using pos_less [of as b] by (simp del: pos_less)
      with False bs nx show ?thesis by (simp add: q' succ_of_append)
    qed
  qed
  from li n last show "list_inv (as @ [n]) q'"
    unfolding list_inv_def
    using chain kt kh tl hd tpos by (auto simp: q')
  have "(heap q)[a := x] ! b = heap q ! b" if "b \<notin> set as" for b x
  proof -
    from that a(1) have "a \<noteq> b" by blast
    then show ?thesis by simp
  qed
  with n show "extends as q (as @ [n]) q'"
    using kt kh by (simp add: extends_def q')
qed

lemma enq_step_inv:
  assumes li: "list_inv as q" and inv: "enq_inv as q l"
    and step: "enq_step tid q l = Inr (q', l')"
  shows "\<exists>as'. list_inv as' q' \<and> enq_inv as' q' l' \<and> extends as q as' q' \<and>
     (as' \<noteq> as \<longrightarrow> e_pc l \<noteq> E_new \<and> (\<exists>n. e_node l = Some n \<and> as' = as @ [n])) \<and>
     (if e_pc l = E_new
      then e_node l' = Some (length (heap q)) \<and> length (heap q') = Suc (length (heap q))
      else e_node l' = e_node l \<and> length (heap q') = length (heap q)) \<and>
     e_pc l' \<noteq> E_new \<and> (as' = as \<longleftrightarrow> e_pc l' \<noteq> E_swing) \<and>
     m_ptr (m_head q') = m_ptr (m_head q)"
proof (cases "e_pc l")
  case E_new
  with step have q': "q' = q\<lparr>heap := heap q @ [\<lparr>m_value = e_value l, m_next = Pointer_default\<rparr>]\<rparr>"
    and l': "l' = l\<lparr>e_node := Some (length (heap q)), e_pc := E_load_tail\<rparr>"
    by (auto simp: enq_step_def new_Node_def)
  have "list_inv as q'"
    using li by (auto simp: list_inv_def q' nth_append)
  moreover have "enq_inv as q' l'"
    using li by (auto simp: enq_inv_def q' l' unlinked_def list_inv_def Pointer_default_def)
  moreover have "extends as q as q'"
    by (simp add: extends_def q' nth_append)
  ultimately show ?thesis
    using E_new by (intro exI [of _ as]) (simp add: q' l')
next
  case E_load_tail
  with step have q': "q' = q" and l': "l' = l\<lparr>e_tail := m_tail q, e_pc := E_add_hazard\<rparr>"
    by (auto simp: enq_step_def)
  have "enq_inv as q' l'"
    using inv E_load_tail by (simp add: enq_inv_def q' l')
  with li E_load_tail show ?thesis
    by (intro exI [of _ as]) (simp add: q' l' extends_frame)
next
  case E_add_hazard
  with step have q': "heap q' = heap q" "m_head q' = m_head q" "m_tail q' = m_tail q"
    and l': "l' = l\<lparr>e_pc := E_validate\<rparr>"
    by (auto simp: enq_step_def)
  have "enq_inv as q' l'"
    using inv E_add_hazard by (simp add: enq_inv_def q' l')
  with li E_add_hazard show ?thesis
    by (intro exI [of _ as]) (simp add: q' l' extends_frame list_inv_frame [OF li])
next
  case E_validate
  with step have q': "heap q' = heap q" "m_head q' = m_head q" "m_tail q' = m_tail q"
    and l': "l' = l\<lparr>e_pc := E_load_tail\<rparr> \<or> l' = l\<lparr>e_pc := E_load_next\<rparr>"
    by (auto simp: enq_step_def enq_release_def split: if_splits)
  have "enq_inv as q' l'"
    using inv E_validate l' by (auto simp: enq_inv_def q')
  with li E_validate l' show ?thesis
    by (intro exI [of _ as]) (auto simp: q' extends_frame list_inv_frame [OF li])
next
  case E_load_next
  from inv E_load_next have "npos as (m_ptr (e_tail l)) \<le> npos as (m_ptr (m_tail q))"
    by (simp add: enq_inv_def)
  from listed_below_tail [OF li this]
  obtain a where a: "m_ptr (e_tail l) = Some a" "a \<in> set as" "a < length (heap q)"
    by blast
  with step E_load_next have q': "q' = q"
    and l': "l' = l\<lparr>e_next := m_next (heap q ! a),
                    e_pc := (if m_ptr (m_next (heap q ! a)) = None then E_link else E_help)\<rparr>"
    by (auto simp: enq_step_def deref_def)
  have "npos as (m_ptr (m_next (heap q ! a))) = Suc (npos as (m_ptr (e_tail l)))"
    using list_inv_next [OF li a(2)] a by simp
  then have "enq_inv as q' l'"
    using inv E_load_next list_inv_next_listed [OF li a(2)]
    by (simp add: enq_inv_def q' l')
  with li E_load_next show ?thesis
    by (intro exI [of _ as]) (simp add: q' l' extends_frame)
next
  case E_help
  have cases: "(heap q' = heap q \<and> m_head q' = m_head q \<and> m_tail q' = m_tail q) \<or>
     (heap q' = heap q \<and> m_head q' = m_head q \<and> m_ptr (m_tail q) = m_ptr (e_tail l) \<and>
      m_ptr (m_tail q') = m_ptr (e_next l))"
    and l': "l' = l\<lparr>e_pc := E_load_tail\<rparr>"
    using step E_help
    by (auto simp: enq_step_def enq_release_def CompareExchange_def Load_def Store_def
        Pointer_eq_def split: if_splits)
  have un: "enq_inv as q' l'"
    using inv E_help cases by (auto simp: enq_inv_def l')
  from cases have "list_inv as q' \<and> extends as q as q'"
  proof
    assume "heap q' = heap q \<and> m_head q' = m_head q \<and> m_tail q' = m_tail q"
    then show ?thesis by (simp add: list_inv_frame [OF li] extends_frame)
  next
    assume c: "heap q' = heap q \<and> m_head q' = m_head q \<and> m_ptr (m_tail q) = m_ptr (e_tail l) \<and>
      m_ptr (m_tail q') = m_ptr (e_next l)"
    with inv E_help have "npos as (m_ptr (m_tail q')) = Suc (npos as (m_ptr (m_tail q)))"
      "npos as (m_ptr (m_tail q')) < length as"
      by (simp_all add: enq_inv_def)
    with list_inv_advance_tail [OF li, of q'] c show ?thesis by simp
  qed
  with un E_help show ?thesis
    by (intro exI [of _ as]) (use cases in \<open>auto simp: l'\<close>)
next
  case E_swing
  have cases: "(heap q' = heap q \<and> m_head q' = m_head q \<and> m_tail q' = m_tail q) \<or>
     (heap q' = heap q \<and> m_head q' = m_head q \<and> m_ptr (m_tail q) = m_ptr (e_tail l) \<and>
      m_ptr (m_tail q') = e_node l)"
    and l': "l' = l\<lparr>e_pc := E_return\<rparr>"
    using step E_swing
    by (auto simp: enq_step_def CompareExchange_def Load_def Store_def
        Pointer_eq_def split: if_splits)
  have un: "enq_inv as q' l'"
    by (simp add: enq_inv_def l')
  from cases have "list_inv as q' \<and> extends as q as q'"
  proof
    assume "heap q' = heap q \<and> m_head q' = m_head q \<and> m_tail q' = m_tail q"
    then show ?thesis by (simp add: list_inv_frame [OF li] extends_frame)
  next
    assume c: "heap q' = heap q \<and> m_head q' = m_head q \<and> m_ptr (m_tail q) = m_ptr (e_tail l) \<and>
      m_ptr (m_tail q') = e_node l"
    with inv E_swing have "npos as (m_ptr (m_tail q')) = Suc (npos as (m_ptr (m_tail q)))"
      "npos as (m_ptr (m_tail q')) < length as"
      by (simp_all add: enq_inv_def)
    with list_inv_advance_tail [OF li, of q'] c show ?thesis by simp
  qed
  with un E_swing show ?thesis
    by (intro exI [of _ as]) (use cases in \<open>auto simp: l'\<close>)
next
  case E_return
  with step have "q' = q" "l' = l" by (auto simp: enq_step_def)
  with li inv E_return show ?thesis
    by (intro exI [of _ as]) (simp add: extends_frame)
next
  case E_link
  from inv E_link have tp: "npos as (m_ptr (e_tail l)) \<le> npos as (m_ptr (m_tail q))"
    and un: "unlinked as (heap q) (e_node l)" and nn: "m_ptr (e_next l) = None"
    by (simp_all add: enq_inv_def)
  from listed_below_tail [OF li tp]
  obtain a where a: "m_ptr (e_tail l) = Some a" "a \<in> set as" "a < length (heap q)"
    by blast
  from un obtain n where n: "e_node l = Some n" "n < length (heap q)" "n \<notin> set as"
    "m_ptr (m_next (heap q ! n)) = None"
    by (auto simp: unlinked_def split: option.splits)
  have cases: "(heap q' = heap q \<and> m_head q' = m_head q \<and> m_tail q' = m_tail q \<and>
       l' = l\<lparr>e_pc := E_load_tail\<rparr>) \<or>
     (m_ptr (m_next (heap q ! a)) = None \<and>
      heap q' = (heap q)[a := (heap q ! a)\<lparr>m_next :=
                   \<lparr>m_ptr = Some n, m_count = m_count (e_next l) + 1\<rparr>\<rparr>] \<and>
      m_head q' = m_head q \<and> m_tail q' = m_tail q \<and> l' = l\<lparr>e_pc := E_swing\<rparr>)"
    using step E_link a n nn
    by (auto simp: enq_step_def enq_release_def CompareExchange_def Load_def Store_def deref_def
        Pointer_eq_def split: if_splits)
  then show ?thesis
  proof
    assume c: "heap q' = heap q \<and> m_head q' = m_head q \<and> m_tail q' = m_tail q \<and>
       l' = l\<lparr>e_pc := E_load_tail\<rparr>"
    then have "enq_inv as q' l'"
      using un by (simp add: enq_inv_def)
    with c E_link show ?thesis
      by (intro exI [of _ as]) (simp add: list_inv_frame [OF li] extends_frame)
  next
    assume c: "m_ptr (m_next (heap q ! a)) = None \<and>
      heap q' = (heap q)[a := (heap q ! a)\<lparr>m_next :=
                   \<lparr>m_ptr = Some n, m_count = m_count (e_next l) + 1\<rparr>\<rparr>] \<and>
      m_head q' = m_head q \<and> m_tail q' = m_tail q \<and> l' = l\<lparr>e_pc := E_swing\<rparr>"
    from tp a have pa: "pos as a \<le> npos as (m_ptr (m_tail q))" by simp
    from c have c1: "m_ptr (m_next (heap q ! a)) = None"
      and c2: "heap q' = (heap q)[a := (heap q ! a)\<lparr>m_next :=
                   \<lparr>m_ptr = Some n, m_count = m_count (e_next l) + 1\<rparr>\<rparr>]"
      and c3: "m_head q' = m_head q" and c4: "m_tail q' = m_tail q"
      and l': "l' = l\<lparr>e_pc := E_swing\<rparr>" by simp_all
    note L = list_inv_link [OF li a(2) c1 n(2,3,4) pa c2 c3 c4]
    have "enq_inv (as @ [n]) q' l'"
      using L(3,4) a n by (simp add: enq_inv_def l')
    with L(1,2) E_link n show ?thesis
      by (intro exI [of _ "as @ [n]"]) (simp add: l' c2 c3)
  qed
qed

lemma list_inv_advance_head:
  assumes "list_inv as q" "heap q' = heap q" "m_ptr (m_tail q') = m_ptr (m_tail q)"
    "npos as (m_ptr (m_head q)) \<le> npos as (m_ptr (m_head q'))"
    "npos as (m_ptr (m_head q')) \<le> npos as (m_ptr (m_tail q))"
  shows "list_inv as q'" "extends as q as q'"
  using assms by (simp_all add: list_inv_def extends_def)

lemma deq_step_inv:
  assumes li: "list_inv as q" and inv: "deq_inv as q l"
    and step: "deq_step tid q l = Inr (q', l')"
  shows "list_inv as q' \<and> deq_inv as q' l' \<and> extends as q as q' \<and> heap q' = heap q \<and>
    (if d_pc l' = D_retire
     then d_pc l = D_advance \<and>
          npos as (m_ptr (m_head q')) = Suc (npos as (m_ptr (m_head q)))
     else m_ptr (m_head q') = m_ptr (m_head q))"
proof -
  from li have ht: "npos as (m_ptr (m_head q)) \<le> npos as (m_ptr (m_tail q))"
    by (simp add: list_inv_def)
  show ?thesis
  proof (cases "d_pc l")
    case D_load_head
    with step have q': "q' = q" and l': "l' = l\<lparr>d_head := m_head q, d_pc := D_hazard_head\<rparr>"
      by (auto simp: deq_step_def)
    with li show ?thesis by (simp add: deq_inv_def extends_frame)
  next
    case D_hazard_head
    with step have q': "heap q' = heap q" "m_head q' = m_head q" "m_tail q' = m_tail q"
      and l': "l' = l\<lparr>d_pc := D_validate\<rparr>"
      by (auto simp: deq_step_def)
    with inv D_hazard_head show ?thesis
      by (simp add: deq_inv_def extends_frame list_inv_frame [OF li])
  next
    case D_validate
    with step have q': "heap q' = heap q" "m_head q' = m_head q" "m_tail q' = m_tail q"
      and l': "l' = l\<lparr>d_pc := D_load_head\<rparr> \<or> l' = l\<lparr>d_pc := D_load_tail\<rparr>"
      by (auto simp: deq_step_def deq_release_def split: if_splits)
    with inv D_validate show ?thesis
      by (auto simp: deq_inv_def extends_frame list_inv_frame [OF li])
  next
    case D_load_tail
    with step have q': "q' = q" and l': "l' = l\<lparr>d_tail := m_tail q, d_pc := D_load_next\<rparr>"
      by (auto simp: deq_step_def)
    with li inv D_load_tail ht show ?thesis by (simp add: deq_inv_def extends_frame)
  next
    case D_load_next
    with inv have hp: "npos as (m_ptr (d_head l)) \<le> npos as (m_ptr (m_head q))"
      by (simp add: deq_inv_def)
    from listed_below_head [OF li hp]
    obtain a where a: "m_ptr (d_head l) = Some a" "a \<in> set as" "a < length (heap q)"
      by blast
    with step D_load_next have q': "q' = q"
      and l': "l' = l\<lparr>d_next := m_next (heap q ! a), d_pc := D_hazard_next\<rparr>"
      by (auto simp: deq_step_def deref_def)
    have "npos as (m_ptr (m_next (heap q ! a))) = Suc (npos as (m_ptr (d_head l)))"
      using list_inv_next [OF li a(2)] a by simp
    then have "deq_inv as q' l'"
      using inv D_load_next list_inv_next_listed [OF li a(2)]
      by (cases "m_ptr (m_next (heap q ! a)) = None") (simp_all add: deq_inv_def q' l')
    with li show ?thesis
      by (simp add: q' l' extends_frame)
  next
    case D_hazard_next
    with step have q': "heap q' = heap q" "m_head q' = m_head q" "m_tail q' = m_tail q"
      and l': "l' = l\<lparr>d_pc := D_revalidate\<rparr>"
      by (auto simp: deq_step_def)
    with inv D_hazard_next show ?thesis
      by (simp add: deq_inv_def extends_frame list_inv_frame [OF li])
  next
    case D_revalidate
    with inv have hp: "npos as (m_ptr (d_head l)) \<le> npos as (m_ptr (m_head q))"
      and le: "npos as (m_ptr (d_head l)) \<le> npos as (m_ptr (d_tail l))"
      by (simp_all add: deq_inv_def)
    from hp ht li have "npos as (m_ptr (d_head l)) < length as"
      by (simp add: list_inv_def)
    from npos_inj [OF this] le
    have neq: "m_ptr (d_head l) \<noteq> m_ptr (d_tail l) \<Longrightarrow>
        npos as (m_ptr (d_head l)) < npos as (m_ptr (d_tail l))"
      by (auto simp: le_less)
    from step D_revalidate
    have q': "heap q' = heap q" "m_head q' = m_head q" "m_tail q' = m_tail q"
      and l': "l' = l\<lparr>d_pc := D_load_head\<rparr> \<or> l' = l\<lparr>d_result := None, d_pc := D_return\<rparr> \<or>
          (m_ptr (d_next l) \<noteq> None \<and> m_ptr (d_head l) = m_ptr (d_tail l) \<and> l' = l\<lparr>d_pc := D_help\<rparr>) \<or>
          (m_ptr (d_next l) \<noteq> None \<and> m_ptr (d_head l) \<noteq> m_ptr (d_tail l) \<and> l' = l\<lparr>d_pc := D_copy\<rparr>)"
      by (auto simp: deq_step_def deq_release_def split: if_splits)
    from l' inv D_revalidate neq have "deq_inv as q' l'"
      by (auto simp: deq_inv_def q')
    moreover from l' have "d_pc l' \<noteq> D_retire" by auto
    ultimately show ?thesis
      using q' by (simp add: extends_frame list_inv_frame [OF li])
  next
    case D_help
    have cases: "(heap q' = heap q \<and> m_head q' = m_head q \<and> m_tail q' = m_tail q) \<or>
       (heap q' = heap q \<and> m_head q' = m_head q \<and> m_ptr (m_tail q) = m_ptr (d_tail l) \<and>
        m_ptr (m_tail q') = m_ptr (d_next l))"
      and l': "l' = l\<lparr>d_pc := D_load_head\<rparr>"
      using step D_help
      by (auto simp: deq_step_def deq_release_def CompareExchange_def Load_def Store_def
          Pointer_eq_def split: if_splits)
    have un: "deq_inv as q' l'"
      by (simp add: deq_inv_def l')
    from cases have "list_inv as q' \<and> extends as q as q' \<and> heap q' = heap q"
    proof
      assume "heap q' = heap q \<and> m_head q' = m_head q \<and> m_tail q' = m_tail q"
      then show ?thesis by (simp add: list_inv_frame [OF li] extends_frame)
    next
      assume c: "heap q' = heap q \<and> m_head q' = m_head q \<and> m_ptr (m_tail q) = m_ptr (d_tail l) \<and>
        m_ptr (m_tail q') = m_ptr (d_next l)"
      with inv D_help have "npos as (m_ptr (m_tail q')) = Suc (npos as (m_ptr (m_tail q)))"
        "npos as (m_ptr (m_tail q')) < length as"
        by (simp_all add: deq_inv_def)
      with list_inv_advance_tail [OF li, of q'] c show ?thesis by simp
    qed
    moreover from cases have "m_ptr (m_head q') = m_ptr (m_head q)" by auto
    ultimately show ?thesis using un by (simp add: l')
  next
    case D_copy
    with inv have np: "npos as (m_ptr (d_next l)) < length as"
      by (simp add: deq_inv_def)
    then obtain b where b: "m_ptr (d_next l) = Some b" "b \<in> set as"
      by (auto simp: npos_less)
    with li have "b < length (heap q)" by (simp add: list_inv_def)
    with step D_copy b have q': "q' = q"
      and l': "l' = l\<lparr>d_ret := Some (m_value (heap q ! b)), d_pc := D_advance\<rparr>"
      by (auto simp: deq_step_def deref_def)
    with li inv D_copy show ?thesis
      by (simp add: deq_inv_def extends_frame)
  next
    case D_advance
    have cases: "(heap q' = heap q \<and> m_head q' = m_head q \<and> m_tail q' = m_tail q \<and>
         l' = l\<lparr>d_pc := D_load_head\<rparr>) \<or>
       (heap q' = heap q \<and> m_tail q' = m_tail q \<and> m_ptr (m_head q) = m_ptr (d_head l) \<and>
        m_ptr (m_head q') = m_ptr (d_next l) \<and> l' = l\<lparr>d_pc := D_retire\<rparr>)"
      using step D_advance
      by (auto simp: deq_step_def deq_release_def CompareExchange_def Load_def Store_def
          Pointer_eq_def split: if_splits)
    then show ?thesis
    proof
      assume c: "heap q' = heap q \<and> m_head q' = m_head q \<and> m_tail q' = m_tail q \<and>
         l' = l\<lparr>d_pc := D_load_head\<rparr>"
      then show ?thesis
        by (simp add: list_inv_frame [OF li] extends_frame deq_inv_def)
    next
      assume c: "heap q' = heap q \<and> m_tail q' = m_tail q \<and> m_ptr (m_head q) = m_ptr (d_head l) \<and>
        m_ptr (m_head q') = m_ptr (d_next l) \<and> l' = l\<lparr>d_pc := D_retire\<rparr>"
      with inv D_advance have p: "npos as (m_ptr (m_head q')) = Suc (npos as (m_ptr (m_head q)))"
        "npos as (m_ptr (m_head q')) \<le> npos as (m_ptr (m_tail q))"
        by (simp_all add: deq_inv_def)
      then have "npos as (m_ptr (m_head q)) \<le> npos as (m_ptr (m_head q'))" by simp
      with list_inv_advance_head [OF li, of q'] c p D_advance show ?thesis
        by (simp add: deq_inv_def)
    qed
  next
    case D_retire
    with step have q': "heap q' = heap q" "m_head q' = m_head q" "m_tail q' = m_tail q"
      and l': "l' = l\<lparr>d_result := d_ret l, d_pc := D_return\<rparr>"
      by (auto simp: deq_step_def)
    then show ?thesis
      by (simp add: deq_inv_def extends_frame list_inv_frame [OF li])
  next
    case D_return
    with step have "q' = q" "l' = l" by (auto simp: deq_step_def)
    with li inv D_return show ?thesis by (simp add: extends_frame)
  qed
qed

lemma thread_stable:
  assumes inv: "thread_inv as q th" and li: "list_inv as q" and ext: "extends as q as' q'"
    and own: "\<And>n. own_node th = Some n \<Longrightarrow> n \<notin> set as \<Longrightarrow> n \<notin> set as'"
  shows "thread_inv as' q' th"
proof (cases th)
  case Idle
  then show ?thesis by (simp add: thread_inv_def)
next
  case (In_Enqueue l)
  from li have tl: "npos as (m_ptr (m_tail q)) < length as" by (simp add: list_inv_def)
  have "unlinked as' (heap q) (e_node l)"
    if "e_pc l \<noteq> E_new" "unlinked as (heap q) (e_node l)"
    using that own [of "the (e_node l)"] In_Enqueue
    by (auto simp: unlinked_def own_node_def split: option.splits)
  with inv In_Enqueue enq_stable [OF _ tl ext, of l] show ?thesis
    by (simp add: thread_inv_def)
next
  case (In_Dequeue l)
  from li have "npos as (m_ptr (m_tail q)) < length as"
    "npos as (m_ptr (m_head q)) \<le> npos as (m_ptr (m_tail q))"
    by (simp_all add: list_inv_def)
  with inv In_Dequeue deq_stable [OF _ _ _ ext, of l] show ?thesis
    by (simp add: thread_inv_def)
qed

lemma enq_inv_own_node:
  assumes "list_inv as q" "enq_inv as q l" "e_pc l \<noteq> E_new" "e_pc l \<noteq> E_return"
  shows "\<exists>n. e_node l = Some n"
  using assms
  by (cases "e_pc l") (auto simp: enq_inv_def unlinked_def npos_less split: option.splits)

lemma exec_inv_rel:
  assumes inv: "sys_inv as s" and ex: "exec a s = Some s'"
  shows "\<exists>as'. sys_inv as' s' \<and> step_rel as s a as' s'"
proof (cases a)
  case (Invoke_Enqueue t v)
  with ex have s': "s' = s\<lparr>threads := (threads s)(t := In_Enqueue (enq_start v))\<rparr>"
    by (auto split: thread.splits)
  from inv show ?thesis
    by (intro exI [of _ as])
      (auto simp: sys_inv_def s' thread_inv_def enq_inv_def enq_start_def nodes_apart_def own_node_def
        step_rel_def Invoke_Enqueue)
next
  case (Invoke_Dequeue t)
  with ex have s': "s' = s\<lparr>threads := (threads s)(t := In_Dequeue deq_start)\<rparr>"
    by (auto split: thread.splits)
  from inv show ?thesis
    by (intro exI [of _ as])
      (auto simp: sys_inv_def s' thread_inv_def deq_inv_def deq_start_def nodes_apart_def own_node_def
        step_rel_def Invoke_Dequeue)
next
  case (Return t)
  with ex have s': "s' = s\<lparr>threads := (threads s)(t := Idle)\<rparr>"
    by (auto split: thread.splits if_splits)
  from inv show ?thesis
    by (intro exI [of _ as])
      (auto simp: sys_inv_def s' thread_inv_def nodes_apart_def own_node_def step_rel_def Return)
next
  case (Step t)
  from inv have li: "list_inv as (queue s)"
    and ti: "\<And>tid. thread_inv as (queue s) (threads s tid)"
    and na: "nodes_apart (threads s) (heap (queue s))"
    by (simp_all add: sys_inv_def)
  show ?thesis
  proof (cases "threads s t")
    case Idle
    with ex Step show ?thesis by simp
  next
    case (In_Dequeue l)
    with ex Step obtain q' l' where st: "deq_step t (queue s) l = Inr (q', l')"
      and s': "s' = \<lparr>queue = q', threads = (threads s)(t := In_Dequeue l')\<rparr>"
      by (auto split: if_splits sum.splits)
    from ti [of t] In_Dequeue have "deq_inv as (queue s) l" by (simp add: thread_inv_def)
    from deq_step_inv [OF li this st]
    have li': "list_inv as q'" and di: "deq_inv as q' l'" and ext: "extends as (queue s) as q'"
      and hp: "heap q' = heap (queue s)"
      and hd: "if d_pc l' = D_retire
        then npos as (m_ptr (m_head q')) = Suc (npos as (m_ptr (m_head (queue s))))
        else m_ptr (m_head q') = m_ptr (m_head (queue s))"
      by (simp_all split: if_splits)
    from hd have rel: "step_rel as s a as s'"
      by (simp add: step_rel_def Step s')
    have "thread_inv as q' (threads s' tid)" for tid
    proof (cases "tid = t")
      case True
      with di show ?thesis by (simp add: s' thread_inv_def)
    next
      case False
      with thread_stable [OF ti [of tid] li ext] show ?thesis by (simp add: s')
    qed
    moreover from na have "nodes_apart (threads s') (heap q')"
      by (auto simp: nodes_apart_def s' hp own_node_def)
    ultimately show ?thesis
      using li' rel by (intro exI [of _ as]) (simp add: sys_inv_def s')
  next
    case (In_Enqueue l)
    with ex Step obtain q' l' where st: "enq_step t (queue s) l = Inr (q', l')"
      and nr: "e_pc l \<noteq> E_return"
      and s': "s' = \<lparr>queue = q', threads = (threads s)(t := In_Enqueue l')\<rparr>"
      by (auto split: if_splits sum.splits)
    from ti [of t] In_Enqueue have ei: "enq_inv as (queue s) l" by (simp add: thread_inv_def)
    from enq_step_inv [OF li ei st]
    obtain as' where li': "list_inv as' q'" and ei': "enq_inv as' q' l'"
      and ext: "extends as (queue s) as' q'"
      and grow: "as' \<noteq> as \<longrightarrow> e_pc l \<noteq> E_new \<and> (\<exists>n. e_node l = Some n \<and> as' = as @ [n])"
      and node: "if e_pc l = E_new
        then e_node l' = Some (length (heap (queue s))) \<and>
             length (heap q') = Suc (length (heap (queue s)))
        else e_node l' = e_node l \<and> length (heap q') = length (heap (queue s))"
      and pc': "e_pc l' \<noteq> E_new"
      and sw: "as' = as \<longleftrightarrow> e_pc l' \<noteq> E_swing"
      and hd: "m_ptr (m_head q') = m_ptr (m_head (queue s))"
      by blast
    from grow have "as' \<noteq> as \<longrightarrow> (\<exists>n. own_node (threads s t) = Some n \<and> as' = as @ [n])"
      by (auto simp: own_node_def In_Enqueue)
    with sw hd have rel: "step_rel as s a as' s'"
      by (simp add: step_rel_def Step s')
    have "thread_inv as' q' (threads s' tid)" for tid
    proof (cases "tid = t")
      case True
      with ei' show ?thesis by (simp add: s' thread_inv_def)
    next
      case False
      have "n \<notin> set as'" if "own_node (threads s tid) = Some n" "n \<notin> set as" for n
      proof (cases "as' = as")
        case True
        with that show ?thesis by simp
      next
        case ne: False
        with grow obtain m where m: "e_pc l \<noteq> E_new" "e_node l = Some m" "as' = as @ [m]"
          by blast
        then have "own_node (threads s t) = Some m"
          using In_Enqueue by (simp add: own_node_def)
        with na False that(1) have "n \<noteq> m" by (auto simp: nodes_apart_def)
        with that(2) m show ?thesis by simp
      qed
      with thread_stable [OF ti [of tid] li ext] False show ?thesis by (simp add: s')
    qed
    moreover have "nodes_apart (threads s') (heap q')"
    proof (cases "e_pc l = E_new")
      case True
      with node have "e_node l' = Some (length (heap (queue s)))"
        "length (heap q') = Suc (length (heap (queue s)))" by simp_all
      with na pc' show ?thesis
        by (auto simp: nodes_apart_def s' own_node_def In_Enqueue less_Suc_eq)
    next
      case False
      with node have "e_node l' = e_node l" "length (heap q') = length (heap (queue s))" by simp_all
      moreover from False have "own_node (threads s t) = e_node l"
        using In_Enqueue by (simp add: own_node_def)
      ultimately show ?thesis
        using na pc' by (auto simp: nodes_apart_def s' own_node_def)
    qed
    ultimately show ?thesis
      using li' rel by (intro exI [of _ as']) (simp add: sys_inv_def s')
  qed
qed

lemma exec_inv:
  "sys_inv as s \<Longrightarrow> exec a s = Some s' \<Longrightarrow> \<exists>as'. sys_inv as' s'"
  using exec_inv_rel by blast

lemma run_inv:
  "sys_inv as s \<Longrightarrow> run acts s = Some s' \<Longrightarrow> \<exists>as'. sys_inv as' s'"
proof (induction acts arbitrary: as s)
  case Nil
  then show ?case by auto
next
  case (Cons a acts)
  from Cons.prems(2) obtain s1 where e: "exec a s = Some s1" and r: "run acts s1 = Some s'"
    by (auto split: option.splits)
  from exec_inv [OF Cons.prems(1) e] obtain as1 where "sys_inv as1 s1" ..
  from Cons.IH [OF this r] show ?case .
qed

lemma reachable_inv:
  "run acts (system_init d) = Some s \<Longrightarrow> \<exists>as. sys_inv as s"
  using run_inv [OF sys_inv_init] .

lemma nodes_from_chain:
  assumes "distinct as" "\<forall>a \<in> set as. a < length H"
    "\<forall>a \<in> set as. m_ptr (m_next (H ! a)) = succ_of as a"
  shows "i < length as \<Longrightarrow> length as - i \<le> k \<Longrightarrow> nodes_from k H (Some (as ! i)) = drop i as"
proof (induction k arbitrary: i)
  case 0
  then show ?case by simp
next
  case (Suc k)
  from Suc.prems assms have b: "as ! i < length H"
    and nx: "m_ptr (m_next (H ! (as ! i))) = succ_of as (as ! i)" by simp_all
  from assms(1) Suc.prems(1) have p: "pos as (as ! i) = i" by simp
  show ?case
  proof (cases "Suc i < length as")
    case True
    with Suc.prems have "length as - Suc i \<le> k" by simp
    from Suc.IH [OF True this] True Suc.prems(1) show ?thesis
      by (simp add: b nx succ_of_def p Cons_nth_drop_Suc)
  next
    case False
    with Suc.prems(1) have "Suc i = length as" by simp
    then have "drop i as = [as ! i]"
      by (metis Cons_nth_drop_Suc Suc.prems(1) drop_all order_refl)
    with False show ?thesis
      by (cases k) (simp_all add: b nx succ_of_def p)
  qed
qed

lemma distinct_bounded_length:
  assumes "distinct as" "\<forall>a \<in> set as. a < n"
  shows "length as \<le> n"
proof -
  from assms(2) have "set as \<subseteq> {..<n}" by auto
  then have "card (set as) \<le> card {..<n}" by (intro card_mono) simp_all
  with assms(1) show ?thesis by (simp add: distinct_card)
qed

lemma queue_nodes_drop:
  assumes "list_inv as q"
  shows "queue_nodes q = drop (npos as (m_ptr (m_head q))) as"
proof -
  from assms have d: "distinct as" and b: "\<forall>a \<in> set as. a < length (heap q)"
    and c: "\<forall>a \<in> set as. m_ptr (m_next (heap q ! a)) = succ_of as a"
    and h: "npos as (m_ptr (m_head q)) < length as"
    by (simp_all add: list_inv_def)
  from h obtain a where a: "m_ptr (m_head q) = Some a" "a \<in> set as"
    by (auto simp: npos_less)
  from distinct_bounded_length [OF d b] have "length as - pos as a \<le> length (heap q)" by simp
  from nodes_from_chain [OF d b c _ this] a show ?thesis
    by (simp add: queue_nodes_def)
qed







section \<open>The history invariant holds in every reachable state\<close>

lemma total_update:
  assumes fin: "finite {t. ths t \<noteq> Idle}" and idle: "f Idle = {#}"
  shows "total_of f (ths(t := th)) + f (ths t) = total_of f ths + f th"
proof -
  let ?A = "insert t {u. ths u \<noteq> Idle}"
  from fin have fA: "finite ?A" by simp
  have a: "total_of f ths = (\<Sum>u\<in>?A. f (ths u))"
    unfolding total_of_def using fA idle by (intro sum.mono_neutral_left) auto
  have b: "total_of f (ths(t := th)) = (\<Sum>u\<in>?A. f ((ths(t := th)) u))"
    unfolding total_of_def using fA idle by (intro sum.mono_neutral_left) auto
  have "(\<Sum>u\<in>?A. f (ths u)) = f (ths t) + (\<Sum>u\<in>?A - {t}. f (ths u))"
    using fA by (intro sum.remove) simp_all
  moreover have "(\<Sum>u\<in>?A. f ((ths(t := th)) u)) = f th + (\<Sum>u\<in>?A - {t}. f ((ths(t := th)) u))"
    using sum.remove [OF fA, of t "\<lambda>u. f ((ths(t := th)) u)"] by simp
  moreover have "(\<Sum>u\<in>?A - {t}. f ((ths(t := th)) u)) = (\<Sum>u\<in>?A - {t}. f (ths u))"
    by (intro sum.cong) simp_all
  ultimately show ?thesis using a b by (simp add: ac_simps)
qed

lemma finite_update:
  "finite {t. ths t \<noteq> Idle} \<Longrightarrow> finite {u. (ths(t := th)) u \<noteq> Idle}"
proof -
  assume "finite {t. ths t \<noteq> Idle}"
  then have "finite (insert t {u. ths u \<noteq> Idle})" by simp
  moreover have "{u. (ths(t := th)) u \<noteq> Idle} \<subseteq> insert t {u. ths u \<noteq> Idle}" by auto
  ultimately show ?thesis by (rule rev_finite_subset)
qed

lemma enq_step_values:
  assumes "enq_step t q l = Inr (q', l')"
  shows "e_value l' = e_value l \<and> length (heap q) \<le> length (heap q') \<and>
    (\<forall>a < length (heap q). m_value (heap q' ! a) = m_value (heap q ! a)) \<and>
    (if e_pc l = E_new
     then e_node l' = Some (length (heap q)) \<and> m_value (heap q' ! length (heap q)) = e_value l \<and>
          length (heap q') = Suc (length (heap q)) \<and> e_pc l' = E_load_tail
     else e_node l' = e_node l \<and> e_pc l' \<noteq> E_new) \<and>
    (e_pc l' = E_swing \<longrightarrow> e_pc l = E_link) \<and>
    (e_pc l' = E_return \<longleftrightarrow> e_pc l = E_swing \<or> e_pc l = E_return)"
  using assms
  by (cases "e_pc l")
    (auto simp: step_defs nth_append nth_list_update split: if_splits option.splits sum.splits)

lemma deq_step_values:
  assumes "deq_step t q l = Inr (q', l')"
  shows "heap q' = heap q \<and>
    (d_pc l' = D_advance \<longrightarrow>
       (\<exists>b. m_ptr (d_next l') = Some b \<and> b < length (heap q) \<and>
            d_ret l' = Some (m_value (heap q ! b)))) \<and>
    (d_pc l' = D_retire \<longrightarrow> d_pc l = D_advance \<and> d_ret l' = d_ret l \<and> d_next l' = d_next l) \<and>
    (d_pc l' = D_return \<longrightarrow>
       d_pc l = D_retire \<and> d_result l' = d_ret l \<or>
       d_pc l = D_revalidate \<and> d_result l' = None \<or>
       d_pc l = D_return \<and> l' = l) \<and>
    (d_pc l = D_retire \<longrightarrow> d_pc l' = D_return) \<and>
    (d_pc l = D_return \<longrightarrow> d_pc l' = D_return)"
  using assms
  by (cases "d_pc l")
    (auto simp: step_defs split: if_splits option.splits sum.splits)

lemma deq_step_head:
  assumes "deq_step t q l = Inr (q', l')" "d_pc l' = D_retire"
  shows "m_ptr (m_head q') = m_ptr (d_next l)"
  using assms
  by (cases "d_pc l")
    (auto simp: step_defs split: if_splits option.splits sum.splits)

lemma pending_Idle [simp]: "pending Idle = {#}"
  by (simp add: pending_def)

lemma inflight_Idle [simp]: "inflight Idle = {#}"
  by (simp add: inflight_def)

lemma linked_values_same:
  assumes "\<forall>a \<in> set as. a < length (heap q)"
    "\<forall>a < length (heap q). m_value (heap q' ! a) = m_value (heap q ! a)"
  shows "linked_values as q' = linked_values as q"
proof -
  have "set (tl as) \<subseteq> set as" by (cases as) auto
  with assms show ?thesis by (auto simp: linked_values_def)
qed

lemma linked_values_append:
  assumes "as \<noteq> []" "\<forall>a \<in> set as. a < length (heap q)"
    "\<forall>a < length (heap q). m_value (heap q' ! a) = m_value (heap q ! a)"
  shows "linked_values (as @ [n]) q' = linked_values as q @ [m_value (heap q' ! n)]"
proof -
  from assms(1) have "tl (as @ [n]) = tl as @ [n]" by simp
  with linked_values_same [OF assms(2,3)] show ?thesis by (simp add: linked_values_def)
qed

lemma list_inv_nonempty: "list_inv as q \<Longrightarrow> as \<noteq> []"
  by (auto simp: list_inv_def)

lemma list_inv_head_pos:
  "list_inv as q \<Longrightarrow> npos as (m_ptr (m_head q)) < length as \<and>
     npos as (m_ptr (m_head q)) \<le> length (linked_values as q)"
  by (auto simp: list_inv_def linked_values_def)

lemma value_inv_stable:
  assumes "value_inv q th" "length (heap q) \<le> length (heap q')"
    "\<forall>a < length (heap q). m_value (heap q' ! a) = m_value (heap q ! a)"
  shows "value_inv q' th"
  using assms
  by (cases th) (auto simp: value_inv_def split: option.splits)

lemma hist_invI:
  assumes "finite {t. ths t \<noteq> Idle}" "\<And>u. value_inv q (ths u)"
    "mset (linked_values as q) + total_of pending ths = mset es"
    "mset (take (npos as (m_ptr (m_head q))) (linked_values as q)) = mset rs + total_of inflight ths"
  shows "hist_inv as es rs \<lparr>queue = q, threads = ths\<rparr>"
  using assms by (simp add: hist_inv_def)

lemma system_eq: "s\<lparr>threads := ths\<rparr> = \<lparr>queue = queue s, threads = ths\<rparr>"
  by simp

lemma hist_inv_call:
  assumes hi: "hist_inv as es rs s" and idle: "threads s t = Idle"
    and th: "pending th = mset vs" "inflight th = {#}" "value_inv (queue s) th"
  shows "hist_inv as (es @ vs) rs (s\<lparr>threads := (threads s)(t := th)\<rparr>)"
proof -
  from hi have fin: "finite {t. threads s t \<noteq> Idle}"
    and vi: "\<And>u. value_inv (queue s) (threads s u)"
    and J1: "mset (linked_values as (queue s)) + total_of pending (threads s) = mset es"
    and J2: "mset (take (npos as (m_ptr (m_head (queue s)))) (linked_values as (queue s)))
        = mset rs + total_of inflight (threads s)"
    by (simp_all add: hist_inv_def)
  from total_update [where ths = "threads s" and f = pending and t = t and th = th, OF fin pending_Idle] idle th
  have p: "total_of pending ((threads s)(t := th)) = total_of pending (threads s) + mset vs" by simp
  from total_update [where ths = "threads s" and f = inflight and t = t and th = th, OF fin inflight_Idle] idle th
  have i: "total_of inflight ((threads s)(t := th)) = total_of inflight (threads s)" by simp
  have v: "value_inv (queue s) (((threads s)(t := th)) u)" for u
    using vi [of u] th(3) by simp
  from J1 have J1': "mset (linked_values as (queue s)) + total_of pending ((threads s)(t := th))
      = mset (es @ vs)" by (simp add: p)
  from J2 have J2': "mset (take (npos as (m_ptr (m_head (queue s)))) (linked_values as (queue s)))
        = mset rs + total_of inflight ((threads s)(t := th))" by (simp add: i)
  show ?thesis
    unfolding system_eq by (rule hist_invI [OF finite_update [OF fin] v J1' J2'])
qed

lemma hist_inv_return:
  assumes hi: "hist_inv as es rs s"
    and th: "pending (threads s t) = {#}" "inflight (threads s t) = mset vs"
  shows "hist_inv as es (rs @ vs) (s\<lparr>threads := (threads s)(t := Idle)\<rparr>)"
proof -
  from hi have fin: "finite {t. threads s t \<noteq> Idle}"
    and vi: "\<And>u. value_inv (queue s) (threads s u)"
    and J1: "mset (linked_values as (queue s)) + total_of pending (threads s) = mset es"
    and J2: "mset (take (npos as (m_ptr (m_head (queue s)))) (linked_values as (queue s)))
        = mset rs + total_of inflight (threads s)"
    by (simp_all add: hist_inv_def)
  from total_update [where ths = "threads s" and f = pending and t = t and th = Idle, OF fin pending_Idle] th
  have p: "total_of pending ((threads s)(t := Idle)) = total_of pending (threads s)" by simp
  from total_update [where ths = "threads s" and f = inflight and t = t and th = Idle, OF fin inflight_Idle] th
  have i: "total_of inflight (threads s) = total_of inflight ((threads s)(t := Idle)) + mset vs" by simp
  have v: "value_inv (queue s) (((threads s)(t := Idle)) u)" for u
    using vi [of u] by (simp add: value_inv_def)
  from J1 have J1': "mset (linked_values as (queue s)) + total_of pending ((threads s)(t := Idle))
      = mset es" by (simp add: p)
  from J2 have J2': "mset (take (npos as (m_ptr (m_head (queue s)))) (linked_values as (queue s)))
        = mset (rs @ vs) + total_of inflight ((threads s)(t := Idle))"
    by (simp add: i)
  show ?thesis
    unfolding system_eq by (rule hist_invI [OF finite_update [OF fin] v J1' J2'])
qed

lemma hist_inv_enq_step:
  assumes li: "list_inv as (queue s)" and hi: "hist_inv as es rs s"
    and th: "threads s t = In_Enqueue l"
    and st: "enq_step t (queue s) l = Inr (q', l')"
    and li': "list_inv as' q'"
    and sw: "as' = as \<longleftrightarrow> e_pc l' \<noteq> E_swing"
    and grow: "as' \<noteq> as \<longrightarrow> (\<exists>n. own_node (threads s t) = Some n \<and> as' = as @ [n])"
    and hd: "m_ptr (m_head q') = m_ptr (m_head (queue s))"
  shows "hist_inv as' es rs \<lparr>queue = q', threads = (threads s)(t := In_Enqueue l')\<rparr>"
proof -
  let ?q = "queue s"
  from hi have fin: "finite {t. threads s t \<noteq> Idle}"
    and vi: "\<And>u. value_inv ?q (threads s u)"
    and J1: "mset (linked_values as ?q) + total_of pending (threads s) = mset es"
    and J2: "mset (take (npos as (m_ptr (m_head ?q))) (linked_values as ?q))
        = mset rs + total_of inflight (threads s)"
    by (simp_all add: hist_inv_def)
  from enq_step_values [OF st]
  have ev: "e_value l' = e_value l" and len: "length (heap ?q) \<le> length (heap q')"
    and keep: "\<forall>a < length (heap ?q). m_value (heap q' ! a) = m_value (heap ?q ! a)"
    and new: "if e_pc l = E_new
     then e_node l' = Some (length (heap ?q)) \<and> m_value (heap q' ! length (heap ?q)) = e_value l \<and>
          length (heap q') = Suc (length (heap ?q)) \<and> e_pc l' = E_load_tail
     else e_node l' = e_node l \<and> e_pc l' \<noteq> E_new"
    and swl: "e_pc l' = E_swing \<longrightarrow> e_pc l = E_link"
    and ret: "e_pc l' = E_return \<longleftrightarrow> e_pc l = E_swing \<or> e_pc l = E_return"
    by simp_all
  from li have bound: "\<forall>a \<in> set as. a < length (heap ?q)" and ne: "as \<noteq> []"
    by (auto simp: list_inv_def)
  from list_inv_head_pos [OF li]
  have h: "npos as (m_ptr (m_head ?q)) < length as"
    "npos as (m_ptr (m_head ?q)) \<le> length (linked_values as ?q)" by simp_all
  have vt: "value_inv q' (In_Enqueue l')"
  proof (cases "e_pc l = E_new")
    case True
    with new ev show ?thesis by (simp add: value_inv_def)
  next
    case False
    with new have n: "e_node l' = e_node l" by simp
    from vi [of t] th have "value_inv ?q (In_Enqueue l)" by simp
    from value_inv_stable [OF this len keep] False ret n ev show ?thesis
      by (auto simp: value_inv_def split: option.splits)
  qed
  have v': "value_inv q' (((threads s)(t := In_Enqueue l')) u)" for u
    using vt value_inv_stable [OF vi [of u] len keep] by simp
  have i: "total_of inflight ((threads s)(t := In_Enqueue l')) = total_of inflight (threads s)"
    using total_update [where ths = "threads s" and f = inflight and t = t and th = "In_Enqueue l'", OF fin inflight_Idle] th
    by (simp add: inflight_def)
  have p: "total_of pending ((threads s)(t := In_Enqueue l')) + pending (In_Enqueue l)
      = total_of pending (threads s) + pending (In_Enqueue l')"
    using total_update [where ths = "threads s" and f = pending and t = t and th = "In_Enqueue l'", OF fin pending_Idle] th by simp
  show ?thesis
  proof (cases "as' = as")
    case True
    with sw have nsw: "e_pc l' \<noteq> E_swing" by simp
    with ret ev have "pending (In_Enqueue l') = pending (In_Enqueue l)"
      using swl by (cases "e_pc l") (auto simp: pending_def)
    with p have p': "total_of pending ((threads s)(t := In_Enqueue l')) = total_of pending (threads s)"
      by simp
    from linked_values_same [OF bound keep] have lv: "linked_values as q' = linked_values as ?q" .
    from J1 have J1': "mset (linked_values as' q') + total_of pending ((threads s)(t := In_Enqueue l'))
        = mset es" by (simp add: True lv p')
    from J2 have J2': "mset (take (npos as' (m_ptr (m_head q'))) (linked_values as' q'))
        = mset rs + total_of inflight ((threads s)(t := In_Enqueue l'))"
      by (simp add: True lv i hd)
    show ?thesis
      by (rule hist_invI [OF finite_update [OF fin] v' J1' J2'])
  next
    case False
    with grow obtain n where n: "own_node (threads s t) = Some n" "as' = as @ [n]" by blast
    from False sw swl have pc: "e_pc l' = E_swing" "e_pc l = E_link" by simp_all
    from n(1) th pc have en: "e_node l = Some n" by (simp add: own_node_def)
    from vi [of t] th pc en have val: "n < length (heap ?q)" "m_value (heap ?q ! n) = e_value l"
      by (simp_all add: value_inv_def)
    with keep have val': "m_value (heap q' ! n) = e_value l" by simp
    from linked_values_append [OF ne bound keep, of n]
    have lv: "linked_values as' q' = linked_values as ?q @ [e_value l]"
      by (simp add: n val')
    from pc have "pending (In_Enqueue l') = {#}" "pending (In_Enqueue l) = {#e_value l#}"
      by (simp_all add: pending_def)
    with p have p': "total_of pending ((threads s)(t := In_Enqueue l')) + {#e_value l#}
        = total_of pending (threads s)" by simp
    from h have hp: "npos as' (m_ptr (m_head ?q)) = npos as (m_ptr (m_head ?q))"
      by (simp add: n npos_append)
    from J1 have J1': "mset (linked_values as' q') + total_of pending ((threads s)(t := In_Enqueue l'))
        = mset es"
      by (simp add: lv p' [symmetric])
    from J2 h have J2': "mset (take (npos as' (m_ptr (m_head q'))) (linked_values as' q'))
        = mset rs + total_of inflight ((threads s)(t := In_Enqueue l'))"
      by (simp add: hd hp lv i)
    show ?thesis
      by (rule hist_invI [OF finite_update [OF fin] v' J1' J2'])
  qed
qed

lemma hist_inv_deq_step:
  assumes li: "list_inv as (queue s)" and hi: "hist_inv as es rs s"
    and th: "threads s t = In_Dequeue l"
    and st: "deq_step t (queue s) l = Inr (q', l')"
    and li': "list_inv as q'"
    and hd: "if d_pc l' = D_retire
      then npos as (m_ptr (m_head q')) = Suc (npos as (m_ptr (m_head (queue s))))
      else m_ptr (m_head q') = m_ptr (m_head (queue s))"
  shows "hist_inv as es rs \<lparr>queue = q', threads = (threads s)(t := In_Dequeue l')\<rparr>"
proof -
  let ?q = "queue s"
  let ?h = "npos as (m_ptr (m_head ?q))"
  from hi have fin: "finite {t. threads s t \<noteq> Idle}"
    and vi: "\<And>u. value_inv ?q (threads s u)"
    and J1: "mset (linked_values as ?q) + total_of pending (threads s) = mset es"
    and J2: "mset (take ?h (linked_values as ?q)) = mset rs + total_of inflight (threads s)"
    by (simp_all add: hist_inv_def)
  note V = deq_step_values [OF st]
  from V have hp: "heap q' = heap ?q" by blast
  from V have adv: "d_pc l' = D_advance \<longrightarrow>
       (\<exists>b. m_ptr (d_next l') = Some b \<and> b < length (heap ?q) \<and>
            d_ret l' = Some (m_value (heap ?q ! b)))" by blast
  from V have rt: "d_pc l' = D_retire \<longrightarrow> d_pc l = D_advance \<and> d_ret l' = d_ret l \<and> d_next l' = d_next l"
    by blast
  from V have rn: "d_pc l' = D_return \<longrightarrow>
       d_pc l = D_retire \<and> d_result l' = d_ret l \<or>
       d_pc l = D_revalidate \<and> d_result l' = None \<or>
       d_pc l = D_return \<and> l' = l" by blast
  from V have r1: "d_pc l = D_retire \<longrightarrow> d_pc l' = D_return"
    and r2: "d_pc l = D_return \<longrightarrow> d_pc l' = D_return" by blast+
  have lv: "linked_values as q' = linked_values as ?q"
    by (simp add: linked_values_def hp)
  have vt: "value_inv q' (In_Dequeue l')"
    using adv by (auto simp: value_inv_def hp split: option.splits)
  have "value_inv q' (threads s u)" for u
    by (rule value_inv_stable [OF vi [of u]]) (simp_all add: hp)
  with vt have v': "value_inv q' (((threads s)(t := In_Dequeue l')) u)" for u
    by simp
  have p: "total_of pending ((threads s)(t := In_Dequeue l')) = total_of pending (threads s)"
    using total_update [where ths = "threads s" and f = pending and t = t and th = "In_Dequeue l'",
        OF fin pending_Idle] th
    by (simp add: pending_def)
  have i: "total_of inflight ((threads s)(t := In_Dequeue l')) + inflight (In_Dequeue l)
      = total_of inflight (threads s) + inflight (In_Dequeue l')"
    using total_update [where ths = "threads s" and f = inflight and t = t and th = "In_Dequeue l'",
        OF fin inflight_Idle] th by simp
  from J1 have J1': "mset (linked_values as q') + total_of pending ((threads s)(t := In_Dequeue l'))
      = mset es" by (simp add: lv p)
  have J2': "mset (take (npos as (m_ptr (m_head q'))) (linked_values as q'))
      = mset rs + total_of inflight ((threads s)(t := In_Dequeue l'))"
  proof (cases "d_pc l' = D_retire")
    case True
    with hd have h': "npos as (m_ptr (m_head q')) = Suc ?h" by simp
    from True rt have pc: "d_pc l = D_advance" and dr: "d_ret l' = d_ret l" by simp_all
    from vi [of t] th pc obtain b where b: "m_ptr (d_next l) = Some b"
      "d_ret l = Some (m_value (heap ?q ! b))"
      by (auto simp: value_inv_def split: option.splits)
    from deq_step_head [OF st True] b have hb: "m_ptr (m_head q') = Some b" by simp
    from list_inv_head_pos [OF li'] h' have sh: "Suc ?h < length as" by simp
    with hb h' have "b \<in> set as" "pos as b = Suc ?h"
      using pos_less [of as b] by (simp_all del: pos_less)
    then have "as ! Suc ?h = b" by (metis nth_pos)
    moreover from sh have "?h < length (tl as)" by simp
    ultimately have "linked_values as ?q ! ?h = m_value (heap ?q ! b)"
      by (simp add: linked_values_def nth_tl)
    moreover from sh have "?h < length (linked_values as ?q)"
      by (simp add: linked_values_def)
    ultimately have tk: "take (Suc ?h) (linked_values as ?q)
        = take ?h (linked_values as ?q) @ [m_value (heap ?q ! b)]"
      by (simp add: take_Suc_conv_app_nth)
    from True pc dr b have "inflight (In_Dequeue l) = {#}"
      "inflight (In_Dequeue l') = {#m_value (heap ?q ! b)#}"
      by (simp_all add: inflight_def opt_mset_def)
    with i have "total_of inflight ((threads s)(t := In_Dequeue l'))
        = total_of inflight (threads s) + {#m_value (heap ?q ! b)#}" by simp
    with J2 show ?thesis by (simp add: h' lv tk)
  next
    case False
    with hd have h': "m_ptr (m_head q') = m_ptr (m_head ?q)" by simp
    have "inflight (In_Dequeue l') = inflight (In_Dequeue l)"
    proof (cases "d_pc l' = D_return")
      case True
      with rn show ?thesis by (auto simp: inflight_def opt_mset_def)
    next
      case nr: False
      with r1 r2 have "d_pc l \<noteq> D_retire" "d_pc l \<noteq> D_return" by auto
      with False nr show ?thesis by (simp add: inflight_def)
    qed
    with i have "total_of inflight ((threads s)(t := In_Dequeue l')) = total_of inflight (threads s)"
      by simp
    with J2 show ?thesis by (simp add: h' lv)
  qed
  show ?thesis
    by (rule hist_invI [OF finite_update [OF fin] v' J1' J2'])
qed

lemma exec_hist_rel:
  assumes si: "sys_inv as s" and hi: "hist_inv as es rs s" and ex: "exec a s = Some s'"
    and si': "sys_inv as' s'" and rel: "step_rel as s a as' s'"
  shows "hist_inv as' (es @ enqueued [a]) (rs @ result_of a s) s'"
proof -
  from si have li: "list_inv as (queue s)" by (simp add: sys_inv_def)
  from si' have li': "list_inv as' (queue s')" by (simp add: sys_inv_def)
  show ?thesis
  proof (cases a)
    case (Invoke_Enqueue t v)
    with ex have idle: "threads s t = Idle"
      and s': "s' = s\<lparr>threads := (threads s)(t := In_Enqueue (enq_start v))\<rparr>"
      by (auto split: thread.splits)
    from rel Invoke_Enqueue have as': "as' = as" by (simp add: step_rel_def)
    have "hist_inv as (es @ [v]) rs s'"
      unfolding s'
      by (rule hist_inv_call [OF hi idle])
        (simp_all add: pending_def inflight_def value_inv_def enq_start_def)
    then show ?thesis by (simp add: as' Invoke_Enqueue result_of_def)
  next
    case (Invoke_Dequeue t)
    with ex have idle: "threads s t = Idle"
      and s': "s' = s\<lparr>threads := (threads s)(t := In_Dequeue deq_start)\<rparr>"
      by (auto split: thread.splits)
    from rel Invoke_Dequeue have as': "as' = as" by (simp add: step_rel_def)
    have "hist_inv as (es @ []) rs s'"
      unfolding s'
      by (rule hist_inv_call [OF hi idle])
        (simp_all add: pending_def inflight_def value_inv_def deq_start_def)
    then show ?thesis by (simp add: as' Invoke_Dequeue result_of_def)
  next
    case (Return t)
    with ex have s': "s' = s\<lparr>threads := (threads s)(t := Idle)\<rparr>"
      and pc: "(\<exists>l. threads s t = In_Enqueue l \<and> e_pc l = E_return) \<or>
               (\<exists>l. threads s t = In_Dequeue l \<and> d_pc l = D_return)"
      by (auto split: thread.splits if_splits)
    from rel Return have as': "as' = as" by (simp add: step_rel_def)
    from pc have "pending (threads s t) = {#}" "inflight (threads s t) = mset (result_of a s)"
      by (auto simp: pending_def inflight_def result_of_def Return opt_mset_def split: option.splits)
    from hist_inv_return [OF hi this] show ?thesis
      by (simp add: as' s' Return)
  next
    case (Step t)
    show ?thesis
    proof (cases "threads s t")
      case Idle
      with ex Step show ?thesis by simp
    next
      case (In_Enqueue l)
      with ex Step obtain q' l' where st: "enq_step t (queue s) l = Inr (q', l')"
        and s': "s' = \<lparr>queue = q', threads = (threads s)(t := In_Enqueue l')\<rparr>"
        by (auto split: if_splits sum.splits)
      from rel have sw: "as' = as \<longleftrightarrow> e_pc l' \<noteq> E_swing"
        and grow: "as' \<noteq> as \<longrightarrow> (\<exists>n. own_node (threads s t) = Some n \<and> as' = as @ [n])"
        and hd: "m_ptr (m_head q') = m_ptr (m_head (queue s))"
        by (simp_all add: step_rel_def Step s')
      from li' have "list_inv as' q'" by (simp add: s')
      from hist_inv_enq_step [OF li hi In_Enqueue st this sw grow hd] show ?thesis
        by (simp add: s' Step result_of_def)
    next
      case (In_Dequeue l)
      with ex Step obtain q' l' where st: "deq_step t (queue s) l = Inr (q', l')"
        and s': "s' = \<lparr>queue = q', threads = (threads s)(t := In_Dequeue l')\<rparr>"
        by (auto split: if_splits sum.splits)
      from rel have as': "as' = as"
        and hd: "if d_pc l' = D_retire
          then npos as (m_ptr (m_head q')) = Suc (npos as (m_ptr (m_head (queue s))))
          else m_ptr (m_head q') = m_ptr (m_head (queue s))"
        by (simp_all add: step_rel_def Step s' cong: if_cong)
      from li' have "list_inv as q'" by (simp add: s' as')
      from hist_inv_deq_step [OF li hi In_Dequeue st this hd] show ?thesis
        by (simp add: s' as' Step result_of_def)
    qed
  qed
qed

lemma exec_hist:
  assumes si: "sys_inv as s" and hi: "hist_inv as es rs s" and ex: "exec a s = Some s'"
  shows "\<exists>as'. sys_inv as' s' \<and> hist_inv as' (es @ enqueued [a]) (rs @ result_of a s) s'"
proof -
  from exec_inv_rel [OF si ex] obtain as' where si': "sys_inv as' s'"
    and rel: "step_rel as s a as' s'" by blast
  from exec_hist_rel [OF si hi ex si' rel] si' show ?thesis by blast
qed

lemma run_hist:
  "sys_inv as s \<Longrightarrow> hist_inv as es rs s \<Longrightarrow> run acts s = Some s' \<Longrightarrow>
   \<exists>as'. sys_inv as' s' \<and> hist_inv as' (es @ enqueued acts) (rs @ returned acts s) s'"
proof (induction acts arbitrary: as s es rs)
  case Nil
  then show ?case by auto
next
  case (Cons a acts)
  from Cons.prems(3) obtain s1 where e: "exec a s = Some s1" and r: "run acts s1 = Some s'"
    by (auto split: option.splits)
  from exec_hist [OF Cons.prems(1,2) e] obtain as1 where
    "sys_inv as1 s1" "hist_inv as1 (es @ enqueued [a]) (rs @ result_of a s) s1" by blast
  from Cons.IH [OF this r] obtain as' where "sys_inv as' s'"
    "hist_inv as' ((es @ enqueued [a]) @ enqueued acts) ((rs @ result_of a s) @ returned acts s1) s'"
    by blast
  moreover have "enqueued (a # acts) = enqueued [a] @ enqueued acts"
    by (cases a) simp_all
  ultimately show ?case using e by auto
qed

lemma total_empty: "total_of f (\<lambda>t. Idle) = {#}"
  by (simp add: total_of_def)

lemma hist_inv_init: "hist_inv [0] [] [] (system_init d)"
  by (simp add: hist_inv_def system_init_def value_inv_def total_empty linked_values_def
      LockfreeQueue_init_def)

lemma reachable_hist:
  assumes "run acts (system_init d) = Some s"
  shows "\<exists>as. sys_inv as s \<and> hist_inv as (enqueued acts) (returned acts (system_init d)) s"
  using run_hist [OF sys_inv_init hist_inv_init assms] by simp

lemma Dequeue_list_inv:
  assumes li: "list_inv as q" and ne: "Suc (npos as (m_ptr (m_head q))) < length as"
  shows "\<exists>q'. Dequeue t q = Some (Inr (Some (linked_values as q ! npos as (m_ptr (m_head q))), q')) \<and>
     list_inv as q' \<and> npos as (m_ptr (m_head q')) = Suc (npos as (m_ptr (m_head q))) \<and>
     linked_values as q' = linked_values as q"
proof -
  from li have d: "distinct as" and b: "\<forall>x \<in> set as. x < length (heap q)"
    and c: "\<forall>x \<in> set as. m_ptr (m_next (heap q ! x)) = succ_of as x"
    and ht: "npos as (m_ptr (m_head q)) \<le> npos as (m_ptr (m_tail q))"
    and tl: "npos as (m_ptr (m_tail q)) < length as"
    and lag: "length as \<le> npos as (m_ptr (m_tail q)) + 2"
    by (simp_all add: list_inv_def)
  from ne obtain a where a: "m_ptr (m_head q) = Some a" "a \<in> set as"
    using npos_less [of as "m_ptr (m_head q)"] by auto
  define k where "k = pos as a"
  from a have hk: "npos as (m_ptr (m_head q)) = k" by (simp add: k_def)
  from ne hk have kl: "Suc k < length as" by simp
  define n where "n = as ! Suc k"
  from kl have ns: "n \<in> set as" by (simp add: n_def)
  from d kl have pn: "pos as n = Suc k" by (simp add: n_def)
  from c a(2) have "m_ptr (m_next (heap q ! a)) = succ_of as a" by blast
  with kl have nx: "m_ptr (m_next (heap q ! a)) = Some n"
    by (simp add: succ_of_def k_def n_def)
  from pn have nea: "n \<noteq> a" by (auto simp: k_def)
  from b a ns have al: "a < length (heap q)" and nl: "n < length (heap q)" by simp_all
  define q' where "q' = deq_release t (q\<lparr>m_head := \<lparr>m_ptr = Some n, m_count = m_count (m_head q) + 1\<rparr>,
        m_tail := (if m_ptr (m_tail q) = Some a
                   then \<lparr>m_ptr = Some n, m_count = m_count (m_tail q) + 1\<rparr> else m_tail q),
        m_hp := RetireHazard (Some a) (m_hp q)\<rparr>)"
  have dq: "Dequeue t q = Some (Inr (Some (m_value (heap q ! n)), q'))"
    unfolding q'_def by (rule Dequeue_nonempty [OF a(1) al nx nl nea])
  have hq: "heap q' = heap q" and hd: "m_ptr (m_head q') = Some n"
    by (simp_all add: q'_def deq_release_def)
  have tp: "npos as (m_ptr (m_tail q')) =
      (if m_ptr (m_tail q) = Some a then Suc k else npos as (m_ptr (m_tail q)))"
    using pn by (simp add: q'_def deq_release_def)
  have t2: "Suc k \<le> npos as (m_ptr (m_tail q))" if "m_ptr (m_tail q) \<noteq> Some a"
  proof -
    have "npos as (m_ptr (m_tail q)) \<noteq> k"
    proof
      assume "npos as (m_ptr (m_tail q)) = k"
      then have "npos as (m_ptr (m_tail q)) = npos as (Some a)" by (simp add: k_def)
      from npos_inj [OF tl this] that show False by simp
    qed
    with ht hk show ?thesis by simp
  qed
  have li': "list_inv as q'"
    unfolding list_inv_def hq hd tp
    using d b c kl lag tl pn t2 k_def by auto
  from kl have "k < length (tl as)" by simp
  then have v: "linked_values as q ! k = m_value (heap q ! n)"
    by (simp add: linked_values_def nth_tl n_def)
  have lv: "linked_values as q' = linked_values as q"
    by (simp add: linked_values_def hq)
  have "npos as (m_ptr (m_head q')) = Suc k" by (simp add: hd pn)
  with dq li' lv show ?thesis
    unfolding hk v by blast
qed

lemma Dequeue_list_inv_empty:
  assumes li: "list_inv as q" and e: "Suc (npos as (m_ptr (m_head q))) = length as"
  shows "Dequeue t q = Some (Inr (None, deq_release t q))"
proof -
  from e obtain a where a: "m_ptr (m_head q) = Some a" "a \<in> set as"
    using npos_less [of as "m_ptr (m_head q)"] by auto
  with li e have "a < length (heap q)" "m_ptr (m_next (heap q ! a)) = None"
    by (simp_all add: list_inv_def succ_of_def)
  with a show ?thesis by (simp add: Dequeue_empty)
qed

lemma drain_list_inv:
  "list_inv as q \<Longrightarrow>
   \<exists>q'. drain t q = Some (Inr (drop (npos as (m_ptr (m_head q))) (linked_values as q), q'))"
proof (induction "length as - Suc (npos as (m_ptr (m_head q)))" arbitrary: q)
  case 0
  from list_inv_head_pos [OF "0.prems"] "0.hyps"
  have e: "Suc (npos as (m_ptr (m_head q))) = length as" by simp
  then have "drop (npos as (m_ptr (m_head q))) (linked_values as q) = []"
    by (simp add: linked_values_def)
  with Dequeue_list_inv_empty [OF "0.prems" e, of t] show ?case
    by (subst drain.simps) simp
next
  case (Suc k)
  let ?h = "npos as (m_ptr (m_head q))"
  from Suc.hyps(2) have ne: "Suc ?h < length as" by simp
  from Dequeue_list_inv [OF Suc.prems ne, of t] obtain q1 where
    dq: "Dequeue t q = Some (Inr (Some (linked_values as q ! ?h), q1))"
    and li1: "list_inv as q1" and h1: "npos as (m_ptr (m_head q1)) = Suc ?h"
    and lv1: "linked_values as q1 = linked_values as q" by blast
  from Suc.hyps(2) h1 have "k = length as - Suc (npos as (m_ptr (m_head q1)))" by simp
  from Suc.hyps(1) [OF this li1] obtain q' where
    dr: "drain t q1 = Some (Inr (drop (Suc ?h) (linked_values as q), q'))"
    by (auto simp: h1 lv1)
  from ne have "?h < length (linked_values as q)" by (simp add: linked_values_def)
  then have "drop ?h (linked_values as q) = linked_values as q ! ?h # drop (Suc ?h) (linked_values as q)"
    by (simp add: Cons_nth_drop_Suc)
  with dq dr show ?case
    by (subst drain.simps) simp
qed

section \<open>No step of a reachable state faults\<close>

lemma enq_step_no_fault:
  assumes li: "list_inv as q" and ei: "enq_inv as q l"
  shows "\<exists>q' l'. enq_step t q l = Inr (q', l')"
proof (cases "e_pc l = E_load_next \<or> e_pc l = E_link")
  case True
  with ei have "npos as (m_ptr (e_tail l)) \<le> npos as (m_ptr (m_tail q))"
    by (auto simp: enq_inv_def)
  from listed_below_tail [OF li this] obtain a where
    "m_ptr (e_tail l) = Some a" "a < length (heap q)" by blast
  with True show ?thesis
    by (auto simp: enq_step_def deref_def CompareExchange_def Load_def)
next
  case False
  then show ?thesis
    by (cases "e_pc l") (simp_all add: enq_step_def CompareExchange_def Load_def new_Node_def)
qed

lemma deq_step_no_fault:
  assumes li: "list_inv as q" and di: "deq_inv as q l"
  shows "\<exists>q' l'. deq_step t q l = Inr (q', l')"
proof (cases "d_pc l = D_load_next \<or> d_pc l = D_copy")
  case True
  then show ?thesis
  proof
    assume pc: "d_pc l = D_load_next"
    with di have "npos as (m_ptr (d_head l)) \<le> npos as (m_ptr (m_head q))"
      by (simp add: deq_inv_def)
    from listed_below_head [OF li this] obtain a where
      "m_ptr (d_head l) = Some a" "a < length (heap q)" by blast
    with pc show ?thesis by (simp add: deq_step_def deref_def)
  next
    assume pc: "d_pc l = D_copy"
    with di have "npos as (m_ptr (d_next l)) < length as" by (simp add: deq_inv_def)
    then obtain a where a: "m_ptr (d_next l) = Some a" "a \<in> set as" by (auto simp: npos_less)
    with li have "a < length (heap q)" by (simp add: list_inv_def)
    with pc a show ?thesis by (simp add: deq_step_def deref_def)
  qed
next
  case False
  then show ?thesis
    by (cases "d_pc l") (simp_all add: deq_step_def CompareExchange_def Load_def)
qed

lemma reachable_no_fault:
  assumes "run acts (system_init d) = Some s" and "threads s t \<noteq> Idle"
  shows "exec (Step t) s \<noteq> None \<or> exec (Return t) s \<noteq> None"
proof -
  from reachable_inv [OF assms(1)] obtain as where "sys_inv as s" ..
  then have li: "list_inv as (queue s)" and ti: "thread_inv as (queue s) (threads s t)"
    by (simp_all add: sys_inv_def)
  show ?thesis
  proof (cases "threads s t")
    case Idle
    with assms(2) show ?thesis by simp
  next
    case (In_Enqueue l)
    with ti have "enq_inv as (queue s) l" by (simp add: thread_inv_def)
    from enq_step_no_fault [OF li this, of t] In_Enqueue show ?thesis by auto
  next
    case (In_Dequeue l)
    with ti have "deq_inv as (queue s) l" by (simp add: thread_inv_def)
    from deq_step_no_fault [OF li this, of t] In_Dequeue show ?thesis by auto
  qed
qed

section \<open>The head of a reachable queue\<close>

lemma pos_upt: "a < n \<Longrightarrow> pos [0..<n] a = a"
proof -
  assume "a < n"
  then have "pos [0..<n] ([0..<n] ! a) = a" by (subst pos_nth) simp_all
  with \<open>a < n\<close> show ?thesis by simp
qed

lemma qstate_list_inv:
  assumes "k \<le> length ws"
  shows "list_inv [0..<Suc (length ws)] (qstate d ws k)"
proof -
  let ?as = "[0..<Suc (length ws)]" and ?q = "qstate d ws k"
  have h: "npos ?as (m_ptr (m_head ?q)) = k" using assms
    by (simp add: qstate_def pos_upt del: upt_Suc)
  have t: "npos ?as (m_ptr (m_tail ?q)) = length ws"
    by (simp add: qstate_def pos_upt del: upt_Suc)
  have n: "m_ptr (m_next (heap ?q ! a)) = succ_of ?as a" if "a \<in> set ?as" for a
  proof -
    from that have a: "a \<le> length ws" by auto
    then have "a < Suc (length ws)" by simp
    from pos_upt [OF this] a show ?thesis
      by (simp add: qstate_heap_nth qnode_def succ_of_def Pointer_default_def nth_append del: upt_Suc)
  qed
  have b: "\<forall>a \<in> set ?as. a < length (heap ?q)" by (simp add: qstate_def)
  show ?thesis unfolding list_inv_def h t using assms n b by simp
qed

lemma run_dequeues_none:
  assumes "m_ptr (m_head q) = Some h" "h < length (heap q)" "m_ptr (m_next (heap q ! h)) = None"
  shows "\<exists>q'. run_calls (replicate k (Call_Dequeue t)) q = Some (Inr (replicate k None, q')) \<and>
     m_head q' = m_head q \<and> m_tail q' = m_tail q \<and> heap q' = heap q \<and>
     retired (m_hp q') = retired (m_hp q)"
  using assms
proof (induction k arbitrary: q)
  case 0
  then show ?case by simp
next
  case (Suc k)
  let ?q1 = "deq_release t q"
  have f: "m_head ?q1 = m_head q" "m_tail ?q1 = m_tail q" "heap ?q1 = heap q"
    "retired (m_hp ?q1) = retired (m_hp q)"
    by (simp_all add: deq_release_def ReleaseHazard_def)
  from Suc.prems have "m_ptr (m_head ?q1) = Some h" "h < length (heap ?q1)"
    "m_ptr (m_next (heap ?q1 ! h)) = None" by (simp_all add: f)
  from Suc.IH [OF this] obtain q' where
    "run_calls (replicate k (Call_Dequeue t)) ?q1 = Some (Inr (replicate k None, q'))"
    "m_head q' = m_head ?q1" "m_tail q' = m_tail ?q1" "heap q' = heap ?q1"
    "retired (m_hp q') = retired (m_hp ?q1)" by blast
  then show ?case
    by (simp add: Dequeue_empty [OF Suc.prems] f)
qed

lemma list_inv_head_dequeue:
  assumes li: "list_inv as q"
  shows "\<exists>h. m_ptr (m_head q) = Some h \<and> h < length (heap q) \<and>
     (case m_ptr (m_next (heap q ! h)) of
        None \<Rightarrow>
          (\<forall>k. \<exists>q'. run_calls (replicate k (Call_Dequeue t)) q = Some (Inr (replicate k None, q')) \<and>
             m_head q' = m_head q \<and> m_tail q' = m_tail q \<and> heap q' = heap q \<and>
             retired (m_hp q') = retired (m_hp q))
      | Some n \<Rightarrow> n < length (heap q) \<and> n \<noteq> h \<and>
          (\<exists>q'. Dequeue t q = Some (Inr (Some (m_value (heap q ! n)), q')) \<and>
                m_ptr (m_head q') = Some n))"
proof -
  from listed_below_head [OF li order_refl] obtain h where
    h: "m_ptr (m_head q) = Some h" "h \<in> set as" "h < length (heap q)" by blast
  show ?thesis
  proof (cases "m_ptr (m_next (heap q ! h))")
    case None
    from run_dequeues_none [OF h(1,3) None, of _ t] h(1,3) None show ?thesis by simp
  next
    case (Some n)
    then have "m_ptr (m_next (heap q ! h)) \<noteq> None" by simp
    from list_inv_next_listed [OF li h(2) this] Some have n1: "n \<in> set as" by simp
    from list_inv_next [OF li h(2)] Some have "pos as n = Suc (pos as h)" by simp
    then have "n \<noteq> h" by auto
    note n = n1 this
    with li have nl: "n < length (heap q)" by (simp add: list_inv_def)
    from Dequeue_nonempty [OF h(1,3) Some nl n(2), of t] h(1,3) Some nl n(2) show ?thesis
      by (simp add: deq_release_def)
  qed
qed

section \<open>The retire invariant holds in every reachable state\<close>

lemma retiring_Idle [simp]: "retiring Idle = {#}"
  by (simp add: retiring_def)

lemma total_same:
  assumes "finite {t. ths t \<noteq> Idle}" "f Idle = {#}" "f th = f (ths t)"
  shows "total_of f (ths(t := th)) = total_of f ths"
  using total_update [where ths = ths and f = f and t = t and th = th, OF assms(1,2)] assms(3)
  by simp

lemma enq_step_retired:
  assumes "enq_step t q l = Inr (q', l')"
  shows "retired (m_hp q') = retired (m_hp q)"
  using assms
  by (cases "e_pc l")
    (auto simp: step_defs split: if_splits option.splits sum.splits)

lemma deq_step_retired:
  assumes "deq_step t q l = Inr (q', l')"
  shows "retired (m_hp q') =
      (if d_pc l = D_retire then retired (m_hp q) @ [m_ptr (d_head l)] else retired (m_hp q)) \<and>
    (d_pc l' = D_retire \<longrightarrow>
       d_pc l = D_advance \<and> d_head l' = d_head l \<and> m_ptr (d_head l) = m_ptr (m_head q))"
  using assms
  by (cases "d_pc l")
    (auto simp: step_defs split: if_splits option.splits sum.splits)

lemma retire_inv_threads:
  assumes ri: "retire_inv as s" and fin: "finite {t. threads s t \<noteq> Idle}"
    and th: "retiring th = retiring (threads s t)"
  shows "retire_inv as (s\<lparr>threads := (threads s)(t := th)\<rparr>)"
  using ri total_same [where f = retiring and ths = "threads s" and t = t and th = th,
      OF fin retiring_Idle th]
  by (simp add: retire_inv_def)

lemma exec_retire_rel:
  assumes si: "sys_inv as s" and fin: "finite {t. threads s t \<noteq> Idle}"
    and ri: "retire_inv as s" and ex: "exec a s = Some s'"
    and si': "sys_inv as' s'" and rel: "step_rel as s a as' s'"
  shows "retire_inv as' s'"
proof -
  from si have li: "list_inv as (queue s)" by (simp add: sys_inv_def)
  from si' have li': "list_inv as' (queue s')" by (simp add: sys_inv_def)
  let ?h = "npos as (m_ptr (m_head (queue s)))"
  from ri have ne: "as \<noteq> []" and hd0: "hd as = 0"
    and R: "mset (retired (m_hp (queue s))) + total_of retiring (threads s)
        = mset (map Some (take ?h as))"
    by (simp_all add: retire_inv_def)
  from list_inv_head_pos [OF li] have hl: "?h < length as" by simp
  show ?thesis
  proof (cases a)
    case (Invoke_Enqueue t v)
    with ex have idle: "threads s t = Idle"
      and s': "s' = s\<lparr>threads := (threads s)(t := In_Enqueue (enq_start v))\<rparr>"
      by (auto split: thread.splits)
    from rel Invoke_Enqueue have as': "as' = as" by (simp add: step_rel_def)
    show ?thesis unfolding s' as'
      by (rule retire_inv_threads [OF ri fin]) (simp add: idle retiring_def)
  next
    case (Invoke_Dequeue t)
    with ex have idle: "threads s t = Idle"
      and s': "s' = s\<lparr>threads := (threads s)(t := In_Dequeue deq_start)\<rparr>"
      by (auto split: thread.splits)
    from rel Invoke_Dequeue have as': "as' = as" by (simp add: step_rel_def)
    show ?thesis unfolding s' as'
      by (rule retire_inv_threads [OF ri fin]) (simp add: idle retiring_def deq_start_def)
  next
    case (Return t)
    with ex have s': "s' = s\<lparr>threads := (threads s)(t := Idle)\<rparr>"
      and pc: "(\<exists>l. threads s t = In_Enqueue l \<and> e_pc l = E_return) \<or>
               (\<exists>l. threads s t = In_Dequeue l \<and> d_pc l = D_return)"
      by (auto split: thread.splits if_splits)
    from rel Return have as': "as' = as" by (simp add: step_rel_def)
    from pc have "retiring Idle = retiring (threads s t)" by (auto simp: retiring_def)
    from retire_inv_threads [OF ri fin this] show ?thesis by (simp add: s' as')
  next
    case (Step t)
    show ?thesis
    proof (cases "threads s t")
      case Idle
      with ex Step show ?thesis by simp
    next
      case (In_Enqueue l)
      with ex Step obtain q' l' where st: "enq_step t (queue s) l = Inr (q', l')"
        and s': "s' = \<lparr>queue = q', threads = (threads s)(t := In_Enqueue l')\<rparr>"
        by (auto split: if_splits sum.splits)
      from rel have grow: "as' \<noteq> as \<longrightarrow> (\<exists>n. as' = as @ [n])"
        and hd: "m_ptr (m_head q') = m_ptr (m_head (queue s))"
        by (auto simp: step_rel_def Step s')
      from grow ne have ne': "as' \<noteq> []" and hd': "hd as' = hd as" by auto
      from grow hl have h': "npos as' (m_ptr (m_head q')) = ?h"
        by (cases "as' = as") (auto simp: hd npos_append)
      from grow hl have tk: "take ?h as' = take ?h as" by auto
      have "total_of retiring ((threads s)(t := In_Enqueue l')) = total_of retiring (threads s)"
        by (rule total_same [where f = retiring and ths = "threads s", OF fin retiring_Idle])
          (simp add: In_Enqueue retiring_def)
      with R show ?thesis
        by (simp add: retire_inv_def s' ne' hd' hd0 h' tk enq_step_retired [OF st])
    next
      case (In_Dequeue l)
      with ex Step obtain q' l' where st: "deq_step t (queue s) l = Inr (q', l')"
        and s': "s' = \<lparr>queue = q', threads = (threads s)(t := In_Dequeue l')\<rparr>"
        by (auto split: if_splits sum.splits)
      from rel have as': "as' = as"
        and hd: "if d_pc l' = D_retire
          then npos as (m_ptr (m_head q')) = Suc (npos as (m_ptr (m_head (queue s))))
          else m_ptr (m_head q') = m_ptr (m_head (queue s))"
        by (simp_all add: step_rel_def Step s' cong: if_cong)
      note D = deq_step_retired [OF st]
      note V = deq_step_values [OF st]
      from V have r1: "d_pc l = D_retire \<longrightarrow> d_pc l' = D_return" by blast
      have U: "total_of retiring ((threads s)(t := In_Dequeue l')) + retiring (In_Dequeue l)
          = total_of retiring (threads s) + retiring (In_Dequeue l')"
        using total_update [where ths = "threads s" and f = retiring and t = t
            and th = "In_Dequeue l'", OF fin retiring_Idle] In_Dequeue by simp
      have "mset (retired (m_hp q')) + total_of retiring ((threads s)(t := In_Dequeue l'))
          = mset (map Some (take (npos as (m_ptr (m_head q'))) as))"
      proof (cases "d_pc l' = D_retire")
        case True
        with hd have h': "npos as (m_ptr (m_head q')) = Suc ?h" by simp
        from True D have pc: "d_pc l = D_advance" and dh: "d_head l' = d_head l"
          and eq: "m_ptr (d_head l) = m_ptr (m_head (queue s))" by simp_all
        from hl obtain x where x: "m_ptr (m_head (queue s)) = Some x" "x \<in> set as"
          by (auto simp: npos_less)
        then have "as ! ?h = x" by simp
        with hl have tk: "take (Suc ?h) as = take ?h as @ [x]"
          by (simp add: take_Suc_conv_app_nth)
        from pc D have rt: "retired (m_hp q') = retired (m_hp (queue s))" by simp
        from True pc dh eq x have "retiring (In_Dequeue l) = {#}"
          "retiring (In_Dequeue l') = {#Some x#}" by (simp_all add: retiring_def)
        with U have "total_of retiring ((threads s)(t := In_Dequeue l'))
            = total_of retiring (threads s) + {#Some x#}" by simp
        with R show ?thesis by (simp add: h' tk rt)
      next
        case False
        with hd have h': "m_ptr (m_head q') = m_ptr (m_head (queue s))" by simp
        show ?thesis
        proof (cases "d_pc l = D_retire")
          case True
          with r1 have "d_pc l' = D_return" by simp
          with True have "retiring (In_Dequeue l) = {#m_ptr (d_head l)#}"
            "retiring (In_Dequeue l') = {#}" by (simp_all add: retiring_def)
          with U have "total_of retiring (threads s)
              = total_of retiring ((threads s)(t := In_Dequeue l')) + {#m_ptr (d_head l)#}" by simp
          moreover from True D have "retired (m_hp q') = retired (m_hp (queue s)) @ [m_ptr (d_head l)]"
            by simp
          ultimately show ?thesis using R by (simp add: h')
        next
          case nr: False
          with False have "retiring (In_Dequeue l) = {#}" "retiring (In_Dequeue l') = {#}"
            by (simp_all add: retiring_def)
          with U have "total_of retiring ((threads s)(t := In_Dequeue l')) = total_of retiring (threads s)"
            by simp
          moreover from nr D have "retired (m_hp q') = retired (m_hp (queue s))" by simp
          ultimately show ?thesis using R by (simp add: h')
        qed
      qed
      with ne hd0 show ?thesis by (simp add: retire_inv_def s' as')
    qed
  qed
qed

lemma run_all:
  "sys_inv as s \<Longrightarrow> hist_inv as es rs s \<Longrightarrow> retire_inv as s \<Longrightarrow> run acts s = Some s' \<Longrightarrow>
   \<exists>as'. sys_inv as' s' \<and> hist_inv as' (es @ enqueued acts) (rs @ returned acts s) s' \<and>
     retire_inv as' s'"
proof (induction acts arbitrary: as s es rs)
  case Nil
  then show ?case by auto
next
  case (Cons a acts)
  from Cons.prems(4) obtain s1 where e: "exec a s = Some s1" and r: "run acts s1 = Some s'"
    by (auto split: option.splits)
  from exec_inv_rel [OF Cons.prems(1) e] obtain as1 where si1: "sys_inv as1 s1"
    and rel: "step_rel as s a as1 s1" by blast
  from Cons.prems(2) have fin: "finite {t. threads s t \<noteq> Idle}" by (simp add: hist_inv_def)
  note h1 = exec_hist_rel [OF Cons.prems(1,2) e si1 rel]
  note r1 = exec_retire_rel [OF Cons.prems(1) fin Cons.prems(3) e si1 rel]
  from Cons.IH [OF si1 h1 r1 r] obtain as' where "sys_inv as' s'"
    "hist_inv as' ((es @ enqueued [a]) @ enqueued acts) ((rs @ result_of a s) @ returned acts s1) s'"
    "retire_inv as' s'"
    by blast
  moreover have "enqueued (a # acts) = enqueued [a] @ enqueued acts"
    by (cases a) simp_all
  ultimately show ?case using e by auto
qed

lemma retire_inv_init: "retire_inv [0] (system_init d)"
  by (simp add: retire_inv_def system_init_def total_empty LockfreeQueue_init_def
      HPContext_Instance_def pos_def)

lemma reachable_all:
  assumes "run acts (system_init d) = Some s"
  shows "\<exists>as. sys_inv as s \<and> hist_inv as (enqueued acts) (returned acts (system_init d)) s \<and>
    retire_inv as s"
  using run_all [OF sys_inv_init hist_inv_init retire_inv_init assms] by simp

lemma all_nodes_list:
  assumes li: "list_inv as q" and ne: "as \<noteq> []" and hd0: "hd as = 0"
  shows "all_nodes q = as"
proof -
  from li have d: "distinct as" and b: "\<forall>a \<in> set as. a < length (heap q)"
    and c: "\<forall>a \<in> set as. m_ptr (m_next (heap q ! a)) = succ_of as a"
    by (simp_all add: list_inv_def)
  from ne have z: "0 < length as" by simp
  from distinct_bounded_length [OF d b] have "length as - 0 \<le> length (heap q)" by simp
  from nodes_from_chain [OF d b c z this] ne hd0 show ?thesis
    by (simp add: all_nodes_def hd_conv_nth)
qed

lemma former_heads_take:
  assumes li: "list_inv as q" and ne: "as \<noteq> []" and hd0: "hd as = 0"
  shows "former_heads q = take (npos as (m_ptr (m_head q))) as"
proof -
  from list_inv_head_pos [OF li] obtain x where x: "m_ptr (m_head q) = Some x"
    by (auto simp: npos_less)
  have "takeWhile (\<lambda>a. a \<noteq> x) as = take (pos as x) as"
    unfolding pos_def by (rule takeWhile_eq_take)
  then show ?thesis
    by (simp add: former_heads_def all_nodes_list [OF assms] x)
qed

lemma sub_distinct:
  assumes "mset xs + M = mset ys" "distinct ys"
  shows "distinct xs"
proof -
  from assms(1) have "mset xs \<subseteq># mset ys" by (metis mset_subset_eq_add_left)
  then have "count (mset xs) x \<le> count (mset ys) x" for x by (rule mset_subset_eq_count)
  moreover from assms(2) have "count (mset ys) x \<le> 1" for x
    by (simp add: distinct_count_atmost_1)
  ultimately have "count (mset xs) x \<le> 1" for x by (meson order_trans)
  then show ?thesis by (simp add: distinct_count_atmost_1 le_Suc_eq)
qed

section \<open>Alternating sequential histories\<close>

lemma run_pairs_qstate:
  "run_calls (concat (replicate n [Call_Enqueue t v, Call_Dequeue t])) (qstate d vs (length vs)) =
     Some (Inr (replicate n (Some v), qstate d (vs @ replicate n v) (length vs + n)))"
proof (induction n arbitrary: vs)
  case 0
  then show ?case by simp
next
  case (Suc n)
  have lt: "length vs < length (vs @ [v])" by simp
  have e: "(vs @ [v]) @ replicate n v = vs @ replicate (Suc n) v"
    by (simp add: replicate_app_Cons_same)
  from Suc.IH [of "vs @ [v]"] show ?case
    by (simp add: Enqueue_qstate Dequeue_qstate_nonempty [OF lt] e)
qed

lemma queue_nodes_qstate:
  assumes "k \<le> length ws"
  shows "queue_nodes (qstate d ws k) = [k..<Suc (length ws)]"
proof -
  have "npos [0..<Suc (length ws)] (m_ptr (m_head (qstate d ws k))) = k"
    using assms by (simp add: qstate_def pos_upt del: upt_Suc)
  with queue_nodes_drop [OF qstate_list_inv [OF assms, of d]] show ?thesis
    by (simp del: upt_Suc)
qed

section \<open>A lagging tail\<close>


section \<open>The values returned\<close>

lemma total_member:
  assumes fin: "finite {t. ths t \<noteq> Idle}" and idle: "f Idle = {#}"
  shows "f (ths t) \<subseteq># total_of f ths"
proof -
  from total_update [where ths = ths and f = f and t = t and th = Idle, OF fin idle] idle
  have "total_of f ths = total_of f (ths(t := Idle)) + f (ths t)" by simp
  then show ?thesis by simp
qed

lemma returned_values_nodes:
  assumes li: "list_inv as q" and ne: "as \<noteq> []" and hd0: "hd as = 0"
    and h: "m_ptr (m_head q) = Some h"
  shows "map (\<lambda>a. m_value (heap q ! a)) (tl (former_heads q @ [h]))
      = take (npos as (m_ptr (m_head q))) (linked_values as q)"
    and "0 \<notin> set (tl (former_heads q @ [h]))"
proof -
  let ?k = "npos as (m_ptr (m_head q))"
  from list_inv_head_pos [OF li] have hl: "?k < length as" by simp
  with h have hs: "h \<in> set as" by (simp add: npos_less)
  with h have "as ! ?k = h" by simp
  with hl have e1: "former_heads q @ [h] = take (Suc ?k) as"
    by (simp add: former_heads_take [OF li ne hd0] take_Suc_conv_app_nth)
  have e2: "tl (take (Suc ?k) as) = take ?k (tl as)" by (simp add: take_tl)
  show "map (\<lambda>a. m_value (heap q ! a)) (tl (former_heads q @ [h])) = take ?k (linked_values as q)"
    unfolding e1 e2 by (simp add: linked_values_def take_map)
  from li have "distinct as" by (simp add: list_inv_def)
  with ne hd0 have "0 \<notin> set (tl as)" by (cases as) auto
  then show "0 \<notin> set (tl (former_heads q @ [h]))"
    unfolding e1 e2 by (auto dest: in_set_takeD)
qed

section \<open>What a call changes\<close>






section \<open>The claims\<close>

text \<open>
  Claim C9. Equality of tagged pointers is structural: \<open>p == q\<close> holds exactly when the
  node reference and the tag both match, that is exactly when the two pairs are the same,
  and \<open>p != q\<close> holds exactly when \<open>p == q\<close> does not.
\<close>

theorem C9_pointer_equality_structural:
  "(Pointer_eq p q \<longleftrightarrow> m_ptr p = m_ptr q \<and> m_count p = m_count q) \<and>
   (Pointer_eq p q \<longleftrightarrow> p = q) \<and>
   (Pointer_neq p q \<longleftrightarrow> \<not> Pointer_eq p q)"
  by (simp add: Pointer_eq_def Pointer_neq_def) (cases p, cases q, simp)

text \<open>
  Claim C1. On a fresh queue, a sequential client that enqueues 1, 2, 3 and then dequeues
  four times gets 1, 2, 3 and then the empty optional. More generally every list of calls
  performed sequentially on a fresh queue returns, and its \<open>Dequeue\<close> results are
  those of a FIFO.
\<close>

theorem C1_sequential_fifo:
  "run_calls [Call_Enqueue t 1, Call_Enqueue t 2, Call_Enqueue t 3,
              Call_Dequeue t, Call_Dequeue t, Call_Dequeue t, Call_Dequeue t]
     (LockfreeQueue_init d)
   = Some (Inr ([Some (1::int), Some 2, Some 3, None], qstate d [1, 2, 3] 3))
   \<and> (\<forall>cs. \<exists>q. run_calls cs (LockfreeQueue_init d) = Some (Inr (fst (fifo cs []), q)))"
proof
  show "run_calls [Call_Enqueue t 1, Call_Enqueue t 2, Call_Enqueue t 3,
              Call_Dequeue t, Call_Dequeue t, Call_Dequeue t, Call_Dequeue t]
     (LockfreeQueue_init d)
   = Some (Inr ([Some (1::int), Some 2, Some 3, None], qstate d [1, 2, 3] 3))"
    using Dequeue_qstate_empty [of t d "[1, 2, 3::int]"]
    by (simp add: qstate_init Enqueue_qstate Dequeue_qstate_nonempty numeral_3_eq_3)
next
  have "0 \<le> length ([] :: 'a list)" by simp
  from run_calls_qstate [OF this, of _ d]
  show "\<forall>cs. \<exists>q. run_calls cs (LockfreeQueue_init d) = Some (Inr (fst (fifo cs []), q))"
    by (metis drop0 qstate_init)
qed

text \<open>
  Claim C5. \<open>Dequeue\<close> on a queue whose head node has a null \<open>next\<close> returns
  normally with the empty optional (a result, not a fault); on a queue whose head node
  links to another node it returns a present optional, when no other thread interferes.
\<close>

theorem C5_dequeue_empty_or_present:
  "(m_ptr (m_head q) = Some h \<and> h < length (heap q) \<and> m_ptr (m_next (heap q ! h)) = None
      \<longrightarrow> (\<exists>q'. Dequeue t q = Some (Inr (None, q')))) \<and>
   (m_ptr (m_head q) = Some h \<and> h < length (heap q) \<and>
    m_ptr (m_next (heap q ! h)) = Some n \<and> n < length (heap q) \<and> n \<noteq> h
      \<longrightarrow> (\<exists>v q'. Dequeue t q = Some (Inr (Some v, q'))))"
  by (simp add: Dequeue_empty Dequeue_nonempty)

theorem C5_witness:
  "(\<exists>q'. Dequeue 0 (qstate (0::int) [] 0) = Some (Inr (None, q'))) \<and>
   (\<exists>v q'. Dequeue 0 (qstate (0::int) [7] 0) = Some (Inr (Some v, q')))"
  using C5_dequeue_empty_or_present [where q = "qstate (0::int) [] 0" and h = 0 and t = 0]
        C5_dequeue_empty_or_present [where q = "qstate (0::int) [7] 0" and h = 0 and n = 1 and t = 0]
  by (simp add: qstate_def qnode_def Pointer_default_def)

text \<open>
  Claim C2. Constructing a queue, enqueuing \<open>K\<close> values and destroying it: the destructor
  returns, and the retire log then holds the nodes \<open>0, \<dots>, K - 1\<close>, each once. That is
  \<open>K\<close> nodes of the \<open>K + 1\<close> allocated ones; the last node, the head when the
  destructor returns, is not retired.
\<close>

theorem C2_destroy_leaves_last_node:
  "run_calls (map (Call_Enqueue t) vs) (LockfreeQueue_init d) = Some (Inr ([], qstate d vs 0)) \<and>
   LockfreeQueue_destroy t (qstate d vs 0) = Some (Inr (qstate d vs (length vs))) \<and>
   retired (m_hp (qstate d vs (length vs))) = map Some [0..<length vs] \<and>
   length (retired (m_hp (qstate d vs (length vs)))) = length vs \<and>
   length (heap (qstate d vs (length vs))) = length vs + 1 \<and>
   m_ptr (m_head (qstate d vs (length vs))) = Some (length vs) \<and>
   Some (length vs) \<notin> set (retired (m_hp (qstate d vs (length vs))))"
proof -
  have "run_calls (map (Call_Enqueue t) vs) (LockfreeQueue_init d) = Some (Inr ([], qstate d vs 0))"
    using run_enqueues_qstate [of t vs d "[]" 0] by (simp add: qstate_init)
  moreover have "LockfreeQueue_destroy t (qstate d vs 0) = Some (Inr (qstate d vs (length vs)))"
    by (rule destroy_qstate) simp
  moreover have "retired (m_hp (qstate d vs (length vs))) = map Some [0..<length vs]"
    "m_ptr (m_head (qstate d vs (length vs))) = Some (length vs)"
    by (simp_all add: qstate_def)
  ultimately show ?thesis
    by (auto simp: qstate_heap_length)
qed

text \<open>
  Claim C3. Whenever a step of any thread changes the value of an atomic slot (head, tail
  or the \<open>next\<close> of a node), which only a successful compare-and-swap does, the new tag
  is the old tag plus one modulo \<open>2^64\<close>: it differs from the old tag, and it is
  strictly greater unless the old tag is \<open>2^64 - 1\<close>, when it is 0.
\<close>

theorem C3_cas_increments_tag:
  assumes "exec a s = Some s'" "Load sl (queue s) = Inr p" "Load sl (queue s') = Inr p'" "p' \<noteq> p"
  shows "m_count p' = m_count p + 1 \<and> m_count p' \<noteq> m_count p \<and>
         (if m_count p = - 1 then m_count p' = 0 else m_count p < m_count p')"
  using exec_slot [OF assms] by (simp add: word_succ_greater)

theorem C3_witness:
  "m_count \<lparr>m_ptr = Some 1, m_count = 1\<rparr> = m_count \<lparr>m_ptr = Some 0, m_count = 0\<rparr> + 1 \<and>
   m_count \<lparr>m_ptr = Some 1, m_count = 1\<rparr> \<noteq> m_count \<lparr>m_ptr = Some 0, m_count = 0\<rparr> \<and>
   (if m_count \<lparr>m_ptr = Some 0, m_count = 0\<rparr> = - 1
    then m_count \<lparr>m_ptr = Some 1, m_count = 1\<rparr> = 0
    else m_count \<lparr>m_ptr = Some 0, m_count = 0\<rparr> < m_count \<lparr>m_ptr = Some 1, m_count = 1\<rparr>)"
proof -
  let ?s = "\<lparr>queue = qstate (0::int) [7] 0,
             threads = (\<lambda>t. Idle)(0 := In_Dequeue
               \<lparr>d_pc = D_advance, d_head = \<lparr>m_ptr = Some 0, m_count = 0\<rparr>,
                d_tail = \<lparr>m_ptr = Some 1, m_count = 1\<rparr>,
                d_next = \<lparr>m_ptr = Some 1, m_count = 1\<rparr>, d_ret = Some 7, d_result = None\<rparr>)\<rparr>"
  have e: "exec (Step 0) ?s = Some (the (exec (Step 0) ?s))"
    by (simp add: step_defs qstate_def)
  have l1: "Load Head (queue ?s) = Inr \<lparr>m_ptr = Some 0, m_count = 0\<rparr>"
    by (simp add: Load_def qstate_def)
  have l2: "Load Head (queue (the (exec (Step 0) ?s))) = Inr \<lparr>m_ptr = Some 1, m_count = 1\<rparr>"
    by (simp add: step_defs qstate_def)
  have ne: "\<lparr>m_ptr = Some 1, m_count = 1\<rparr> \<noteq> \<lparr>m_ptr = Some 0, m_count = (0::64 word)\<rparr>"
    by simp
  from C3_cas_increments_tag [OF e l1 l2 ne] show ?thesis .
qed

text \<open>
  The claim as stated fails when the tag wraps around. A sequential client alternates
  \<open>Enqueue\<close> and \<open>Dequeue\<close>. After every pair the list holds one node, the head, no hazard
  is published, and every other node of the arena has been handed to the hazard context,
  which is free to delete it; after the \<open>Enqueue\<close> of the next pair the list holds two nodes. After
  \<open>2^64 - 1\<close> pairs the tags of head and tail are \<open>2^64 - 1\<close>. The successful
  compare-and-swap on tail of the next \<open>Enqueue\<close> installs tag 0, and so does the successful
  compare-and-swap on head of the \<open>Dequeue\<close> after it.
\<close>

theorem C3_counterexample:
  "(\<forall>k. run_calls (concat (replicate k [Call_Enqueue 0 7, Call_Dequeue 0]))
          (LockfreeQueue_init (0::int))
        = Some (Inr (replicate k (Some 7), qstate 0 (replicate k 7) k)) \<and>
        queue_nodes (qstate (0::int) (replicate k 7) k) = [k] \<and>
        retired (m_hp (qstate (0::int) (replicate k 7) k)) = map Some [0..<k] \<and>
        length (heap (qstate (0::int) (replicate k 7) k))
          = length (retired (m_hp (qstate (0::int) (replicate k 7) k))) + 1 \<and>
        hazards (m_hp (qstate (0::int) (replicate k 7) k)) = (\<lambda>t i. None) \<and>
        Enqueue 0 7 (qstate (0::int) (replicate k 7) k)
          = Some (Inr (qstate 0 (replicate (Suc k) 7) k)) \<and>
        queue_nodes (qstate (0::int) (replicate (Suc k) 7) k) = [k, Suc k] \<and>
        Dequeue 0 (qstate (0::int) (replicate (Suc k) 7) k)
          = Some (Inr (Some 7, qstate 0 (replicate (Suc k) 7) (Suc k)))) \<and>
   m_count (m_tail (qstate (0::int) (replicate (2 ^ 64 - 1) 7) (2 ^ 64 - 1))) = - 1 \<and>
   m_count (m_tail (qstate (0::int) (replicate (Suc (2 ^ 64 - 1)) 7) (2 ^ 64 - 1))) = 0 \<and>
   \<not> m_count (m_tail (qstate (0::int) (replicate (2 ^ 64 - 1) 7) (2 ^ 64 - 1)))
       < m_count (m_tail (qstate (0::int) (replicate (Suc (2 ^ 64 - 1)) 7) (2 ^ 64 - 1))) \<and>
   m_count (m_head (qstate (0::int) (replicate (Suc (2 ^ 64 - 1)) 7) (2 ^ 64 - 1))) = - 1 \<and>
   m_count (m_head (qstate (0::int) (replicate (Suc (2 ^ 64 - 1)) 7) (Suc (2 ^ 64 - 1)))) = 0 \<and>
   \<not> m_count (m_head (qstate (0::int) (replicate (Suc (2 ^ 64 - 1)) 7) (2 ^ 64 - 1)))
       < m_count (m_head (qstate (0::int) (replicate (Suc (2 ^ 64 - 1)) 7) (Suc (2 ^ 64 - 1))))"
proof -
  let ?n = "2 ^ 64 - 1 :: nat"
  have A: "run_calls (concat (replicate k [Call_Enqueue 0 7, Call_Dequeue 0]))
          (LockfreeQueue_init (0::int))
        = Some (Inr (replicate k (Some 7), qstate 0 (replicate k 7) k))" for k
    using run_pairs_qstate [of k 0 7 "0::int" "[]"] by (simp add: qstate_init)
  have B: "queue_nodes (qstate (0::int) (replicate k 7) k) = [k]" for k
    using queue_nodes_qstate [of k "replicate k (7::int)" 0] by simp
  have C: "retired (m_hp (qstate (0::int) (replicate k 7) k)) = map Some [0..<k]"
    "length (heap (qstate (0::int) (replicate k 7) k))
       = length (retired (m_hp (qstate (0::int) (replicate k 7) k))) + 1"
    "hazards (m_hp (qstate (0::int) (replicate k 7) k)) = (\<lambda>t i. None)" for k
    by (simp_all add: qstate_def)
  have D: "Enqueue 0 7 (qstate (0::int) (replicate k 7) k)
          = Some (Inr (qstate 0 (replicate (Suc k) 7) k))" for k
    by (simp add: Enqueue_qstate replicate_append_same)
  have E: "queue_nodes (qstate (0::int) (replicate (Suc k) 7) k) = [k, Suc k]" for k
    using queue_nodes_qstate [of k "replicate (Suc k) (7::int)" 0]
    by (simp add: upt_rec [of k])
  have F: "Dequeue 0 (qstate (0::int) (replicate (Suc k) 7) k)
          = Some (Inr (Some 7, qstate 0 (replicate (Suc k) 7) (Suc k)))" for k
  proof -
    have lt: "k < length (replicate (Suc k) (7::int))" by simp
    have "replicate (Suc k) (7::int) ! k = 7" by (subst nth_replicate) simp_all
    with Dequeue_qstate_nonempty [OF lt, of 0 0] show ?thesis by simp
  qed
  have s: "Suc ?n = 2 ^ 64" by simp
  have t1: "m_count (m_tail (qstate (0::int) (replicate ?n 7) ?n)) = - 1"
    by (simp add: qstate_def of_nat_diff)
  have t2: "m_count (m_tail (qstate (0::int) (replicate (Suc ?n) 7) ?n)) = 0"
    unfolding s by (simp add: qstate_def)
  have h1: "m_count (m_head (qstate (0::int) (replicate (Suc ?n) 7) ?n)) = - 1"
    unfolding qstate_head_count by (simp add: of_nat_diff)
  have h2: "m_count (m_head (qstate (0::int) (replicate (Suc ?n) 7) (Suc ?n))) = 0"
    unfolding qstate_head_count s by simp
  show ?thesis
    unfolding t1 t2 h1 h2 using A B C D E F by simp
qed




text \<open>
  Claim C8. For every interleaving of the atomic steps of any number of \<open>Enqueue\<close> and
  \<open>Dequeue\<close> calls on the fresh queue: the values the \<open>Dequeue\<close> calls have returned (those
  that returned a present optional) are, as a multiset, contained in the multiset of the
  values passed to \<open>Enqueue\<close>, so no value is returned more often than it was enqueued.
  When every call has returned, draining the queue (\<open>Dequeue\<close> until it returns the empty
  optional) terminates without a fault, and the values returned before together with the
  values drained are exactly the multiset of the enqueued values.
\<close>

theorem C8_no_loss_no_duplication:
  assumes "run acts (system_init d) = Some s"
  shows "mset (returned acts (system_init d)) \<subseteq># mset (enqueued acts) \<and>
    ((\<forall>u. threads s u = Idle) \<longrightarrow>
       (\<exists>vs q'. drain t (queue s) = Some (Inr (vs, q')) \<and>
          mset (returned acts (system_init d)) + mset vs = mset (enqueued acts)))"
proof -
  let ?rs = "returned acts (system_init d)" and ?es = "enqueued acts"
  from reachable_hist [OF assms] obtain as where si: "sys_inv as s"
    and hi: "hist_inv as ?es ?rs s" by blast
  from si have li: "list_inv as (queue s)" by (simp add: sys_inv_def)
  let ?lv = "linked_values as (queue s)" and ?h = "npos as (m_ptr (m_head (queue s)))"
  from hi have J1: "mset ?lv + total_of pending (threads s) = mset ?es"
    and J2: "mset (take ?h ?lv) = mset ?rs + total_of inflight (threads s)"
    by (simp_all add: hist_inv_def)
  have split: "mset ?lv = mset (take ?h ?lv) + mset (drop ?h ?lv)"
    by (metis append_take_drop_id mset_append)
  have "mset ?rs \<subseteq># mset (take ?h ?lv)" using J2 by simp
  also have "\<dots> \<subseteq># mset ?lv" using split by simp
  also have "\<dots> \<subseteq># mset ?es" using J1 [symmetric] by simp
  finally have A: "mset ?rs \<subseteq># mset ?es" .
  have B: "\<exists>vs q'. drain t (queue s) = Some (Inr (vs, q')) \<and> mset ?rs + mset vs = mset ?es"
    if idle: "\<forall>u. threads s u = Idle"
  proof -
    from idle have "threads s = (\<lambda>u. Idle)" by (simp add: fun_eq_iff)
    then have "total_of pending (threads s) = {#}" "total_of inflight (threads s) = {#}"
      by (simp_all add: total_empty)
    with J1 J2 split have "mset ?rs + mset (drop ?h ?lv) = mset ?es" by simp
    with drain_list_inv [OF li, of t] show ?thesis by blast
  qed
  from A B show ?thesis by blast
qed

theorem C8_witness:
  "(let acts = [Invoke_Enqueue 0 7, Invoke_Enqueue 1 8, Invoke_Dequeue 2,
                Step 0, Step 1, Step 2, Step 0, Step 1, Step 2, Step 0, Step 1, Step 2,
                Step 0, Step 1, Step 2, Step 0, Step 1, Step 2, Step 0, Step 1, Step 2,
                Step 0, Step 1, Step 2, Return 0, Return 2,
                Step 1, Step 1, Step 1, Step 1, Invoke_Dequeue 2, Step 2, Step 2, Step 2,
                Step 1, Step 2, Step 2, Step 2, Return 1, Step 2, Step 2, Step 2, Step 2,
                Return 2];
        i = system_init (0::int);
        s = the (run acts i)
    in run acts i = Some s \<and> (\<forall>u. threads s u = Idle) \<and>
       enqueued acts = [7, 8] \<and> returned acts i = [7] \<and>
       mset (returned acts i) \<subseteq># mset (enqueued acts) \<and>
       (\<exists>vs q'. drain 2 (queue s) = Some (Inr (vs, q')) \<and>
          mset (returned acts i) + mset vs = mset (enqueued acts)))"
proof -
  let ?acts = "[Invoke_Enqueue 0 (7::int), Invoke_Enqueue 1 8, Invoke_Dequeue 2,
                Step 0, Step 1, Step 2, Step 0, Step 1, Step 2, Step 0, Step 1, Step 2,
                Step 0, Step 1, Step 2, Step 0, Step 1, Step 2, Step 0, Step 1, Step 2,
                Step 0, Step 1, Step 2, Return 0, Return 2,
                Step 1, Step 1, Step 1, Step 1, Invoke_Dequeue 2, Step 2, Step 2, Step 2,
                Step 1, Step 2, Step 2, Step 2, Return 1, Step 2, Step 2, Step 2, Step 2,
                Return 2]"
  let ?i = "system_init (0::int)"
  let ?s = "the (run ?acts ?i)"
  have r: "run ?acts ?i = Some ?s"
    by (simp add: sys_defs step_defs)
  have idle: "\<forall>u. threads ?s u = Idle"
    by (simp add: sys_defs step_defs)
  have es: "enqueued ?acts = [7, 8]" by simp
  have rs: "returned ?acts ?i = [7]"
    by (simp add: sys_defs step_defs result_of_def)
  note T = C8_no_loss_no_duplication [OF r, of 2]
  have A: "mset (returned ?acts ?i) \<subseteq># mset (enqueued ?acts)"
    using T by (rule conjunct1)
  have B: "\<exists>vs q'. drain 2 (queue ?s) = Some (Inr (vs, q')) \<and>
          mset (returned ?acts ?i) + mset vs = mset (enqueued ?acts)"
    using T idle by (rule conjunct2 [THEN mp])
  show ?thesis unfolding Let_def by (intro conjI r idle es rs A B)
qed

text \<open>
  Claim C4. In every state reached under any interleaving of the steps of concurrent
  calls, the head is an allocated node, the sentinel. The values the \<open>Dequeue\<close> calls have
  returned, together with those taken out by calls that have not returned yet, are the
  values stored in the nodes after the first sentinel up to the head, each node counted
  once: every \<open>Dequeue\<close> returned the value of the node that followed the head and became
  the head, never the value slot of the first sentinel (node 0). Every value returned, and
  the value a call at its return statement is about to return, is a value that was passed
  to \<open>Enqueue\<close>. A call whose compare-and-swap on head is about to succeed holds a copy of
  the value stored in the node after head. For the queue of such a state, and for every queue a sequential client
  reaches from a fresh queue: if the head links to a node, a \<open>Dequeue\<close> started then (run
  without interference) returns the value stored in that node, which is not the sentinel,
  and that node becomes the head; if it links to none, any number of \<open>Dequeue\<close> calls in
  a row all return the empty optional and leave head, tail, the nodes and the retire log
  as they are.
\<close>

theorem C4_sentinel_never_returned:
  assumes "run acts (system_init d) = Some s"
  shows "(\<exists>h. m_ptr (m_head (queue s)) = Some h \<and> h < length (heap (queue s)) \<and>
       mset (returned acts (system_init d)) + total_of inflight (threads s)
         = mset (map (\<lambda>a. m_value (heap (queue s) ! a)) (tl (former_heads (queue s) @ [h]))) \<and>
       0 \<notin> set (tl (former_heads (queue s) @ [h])) \<and>
       (threads s t = In_Dequeue l \<and> d_pc l = D_return \<and> d_result l = Some v \<longrightarrow>
          v \<in> set (enqueued acts) \<and>
          (\<exists>n \<in> set (tl (former_heads (queue s) @ [h])). v = m_value (heap (queue s) ! n)))) \<and>
    set (returned acts (system_init d)) \<subseteq> set (enqueued acts) \<and>
    (threads s t = In_Dequeue k \<and> d_pc k = D_advance \<and> m_head (queue s) = d_head k \<longrightarrow>
       (\<exists>h n. m_ptr (m_head (queue s)) = Some h \<and>
          m_ptr (m_next (heap (queue s) ! h)) = Some n \<and> n \<noteq> h \<and>
          d_ret k = Some (m_value (heap (queue s) ! n)))) \<and>
    (q = queue s \<or> (\<exists>cs rs. run_calls cs (LockfreeQueue_init d) = Some (Inr (rs, q))) \<longrightarrow>
       (\<exists>h. m_ptr (m_head q) = Some h \<and> h < length (heap q) \<and>
          (case m_ptr (m_next (heap q ! h)) of
             None \<Rightarrow>
               (\<forall>k. \<exists>q'. run_calls (replicate k (Call_Dequeue t)) q
                         = Some (Inr (replicate k None, q')) \<and>
                  m_head q' = m_head q \<and> m_tail q' = m_tail q \<and> heap q' = heap q \<and>
                  retired (m_hp q') = retired (m_hp q))
           | Some n \<Rightarrow> n < length (heap q) \<and> n \<noteq> h \<and>
               (\<exists>q'. Dequeue t q = Some (Inr (Some (m_value (heap q ! n)), q')) \<and>
                     m_ptr (m_head q') = Some n))))"
proof -
  let ?q = "queue s" and ?rs = "returned acts (system_init d)" and ?es = "enqueued acts"
  from reachable_all [OF assms] obtain as where si: "sys_inv as s"
    and hi: "hist_inv as ?es ?rs s" and ri: "retire_inv as s" by blast
  from si have li: "list_inv as ?q" by (simp add: sys_inv_def)
  from ri have ne: "as \<noteq> []" and hd0: "hd as = 0" by (simp_all add: retire_inv_def)
  let ?k = "npos as (m_ptr (m_head ?q))" and ?lv = "linked_values as ?q"
  from hi have fin: "finite {t. threads s t \<noteq> Idle}"
    and J1: "mset ?lv + total_of pending (threads s) = mset ?es"
    and J2: "mset (take ?k ?lv) = mset ?rs + total_of inflight (threads s)"
    by (simp_all add: hist_inv_def)
  from listed_below_head [OF li order_refl] obtain h where
    h: "m_ptr (m_head ?q) = Some h" "h < length (heap ?q)" by blast
  let ?ns = "tl (former_heads ?q @ [h])"
  note N = returned_values_nodes [OF li ne hd0 h(1)]
  from J1 have "mset ?lv \<subseteq># mset ?es" by (metis mset_subset_eq_add_left)
  then have lve: "set ?lv \<subseteq> set ?es" by (metis set_mset_mono set_mset_mset)
  have tke: "set (take ?k ?lv) \<subseteq> set ?es" using lve by (auto dest: in_set_takeD)
  have A: "mset ?rs + total_of inflight (threads s) = mset (map (\<lambda>a. m_value (heap ?q ! a)) ?ns)"
    using J2 by (simp add: N(1))
  have C: "v \<in> set ?es \<and> (\<exists>n \<in> set ?ns. v = m_value (heap ?q ! n))"
    if "threads s t = In_Dequeue l \<and> d_pc l = D_return \<and> d_result l = Some v"
  proof -
    from that have "inflight (threads s t) = {#v#}" by (simp add: inflight_def opt_mset_def)
    with total_member [where f = inflight and ths = "threads s" and t = t, OF fin inflight_Idle]
    have "v \<in># total_of inflight (threads s)" by (simp add: mset_subset_eq_insertD)
    then have "v \<in># mset ?rs + total_of inflight (threads s)" by simp
    with J2 have v: "v \<in> set (take ?k ?lv)" by (metis set_mset_mset)
    with tke have "v \<in> set ?es" by blast
    moreover from v N(1) have "v \<in> set (map (\<lambda>a. m_value (heap ?q ! a)) ?ns)" by simp
    then have "\<exists>n \<in> set ?ns. v = m_value (heap ?q ! n)" by auto
    ultimately show ?thesis by simp
  qed
  from J2 have "mset ?rs \<subseteq># mset (take ?k ?lv)" by simp
  then have "set ?rs \<subseteq> set (take ?k ?lv)" by (metis set_mset_mono set_mset_mset)
  with tke have D: "set ?rs \<subseteq> set ?es" by blast
  have E: "\<exists>h. m_ptr (m_head q) = Some h \<and> h < length (heap q) \<and>
          (case m_ptr (m_next (heap q ! h)) of
             None \<Rightarrow>
               (\<forall>k. \<exists>q'. run_calls (replicate k (Call_Dequeue t)) q
                         = Some (Inr (replicate k None, q')) \<and>
                  m_head q' = m_head q \<and> m_tail q' = m_tail q \<and> heap q' = heap q \<and>
                  retired (m_hp q') = retired (m_hp q))
           | Some n \<Rightarrow> n < length (heap q) \<and> n \<noteq> h \<and>
               (\<exists>q'. Dequeue t q = Some (Inr (Some (m_value (heap q ! n)), q')) \<and>
                     m_ptr (m_head q') = Some n))"
    if "q = queue s \<or> (\<exists>cs rs. run_calls cs (LockfreeQueue_init d) = Some (Inr (rs, q)))"
  proof -
    from that have "\<exists>as. list_inv as q"
    proof
      assume "q = queue s"
      with li show ?thesis by blast
    next
      assume "\<exists>cs rs. run_calls cs (LockfreeQueue_init d) = Some (Inr (rs, q))"
      then obtain cs rs where "run_calls cs (LockfreeQueue_init d) = Some (Inr (rs, q))" by blast
      from seq_reachable_qstate [OF this] obtain ws k where
        "k \<le> length ws" "q = qstate d ws k" by blast
      with qstate_list_inv [of k ws d] show ?thesis by blast
    qed
    then obtain as' where "list_inv as' q" ..
    then show ?thesis by (rule list_inv_head_dequeue)
  qed
  have G: "\<exists>h n. m_ptr (m_head ?q) = Some h \<and> m_ptr (m_next (heap ?q ! h)) = Some n \<and>
          n \<noteq> h \<and> d_ret k = Some (m_value (heap ?q ! n))"
    if hyp: "threads s t = In_Dequeue k \<and> d_pc k = D_advance \<and> m_head ?q = d_head k"
  proof -
    from hyp have th: "threads s t = In_Dequeue k" and pc: "d_pc k = D_advance"
      and eq: "m_head ?q = d_head k" by simp_all
    from si have "thread_inv as ?q (threads s t)" by (simp add: sys_inv_def)
    with th have "deq_inv as ?q k" by (simp add: thread_inv_def)
    with pc have nx: "npos as (m_ptr (d_next k)) = Suc (npos as (m_ptr (d_head k)))"
      and nl: "npos as (m_ptr (d_next k)) < length as" by (simp_all add: deq_inv_def)
    from hi have "value_inv ?q (threads s t)" by (simp add: hist_inv_def)
    with th have "value_inv ?q (In_Dequeue k)" by simp
    with pc obtain b where b: "m_ptr (d_next k) = Some b"
      "d_ret k = Some (m_value (heap ?q ! b))"
      by (auto simp: value_inv_def split: option.splits)
    from listed_below_head [OF li order_refl] obtain x where
      x: "m_ptr (m_head ?q) = Some x" "x \<in> set as" by blast
    from nx b x eq have pb: "pos as b = Suc (pos as x)" by simp
    from nl b have bs: "b \<in> set as" by simp
    with pb have "Suc (pos as x) < length as" using pos_less [of as b] by (simp del: pos_less)
    moreover from bs pb have "as ! Suc (pos as x) = b" by (metis nth_pos)
    ultimately have "succ_of as x = Some b" by (simp add: succ_of_def)
    with li x have "m_ptr (m_next (heap ?q ! x)) = Some b" by (simp add: list_inv_def)
    moreover from pb have "b \<noteq> x" by auto
    ultimately show ?thesis using x b by blast
  qed
  from h A N(2) C have "\<exists>h. m_ptr (m_head ?q) = Some h \<and> h < length (heap ?q) \<and>
       mset ?rs + total_of inflight (threads s)
         = mset (map (\<lambda>a. m_value (heap ?q ! a)) (tl (former_heads ?q @ [h]))) \<and>
       0 \<notin> set (tl (former_heads ?q @ [h])) \<and>
       (threads s t = In_Dequeue l \<and> d_pc l = D_return \<and> d_result l = Some v \<longrightarrow>
          v \<in> set ?es \<and>
          (\<exists>n \<in> set (tl (former_heads ?q @ [h])). v = m_value (heap ?q ! n)))"
    by blast
  with D G E show ?thesis by blast
qed

theorem C4_witness:
  "(let acts = [Invoke_Enqueue 0 7, Invoke_Enqueue 1 8, Invoke_Dequeue 2,
                Step 0, Step 1, Step 2, Step 0, Step 1, Step 2, Step 0, Step 1, Step 2,
                Step 0, Step 1, Step 2, Step 0, Step 1, Step 2, Step 0, Step 1, Step 2,
                Step 0, Step 1, Step 2, Return 0, Return 2,
                Step 1, Step 1, Step 1, Step 1, Invoke_Dequeue 2, Step 2, Step 2, Step 2,
                Step 1, Step 2, Step 2, Step 2, Return 1, Step 2, Step 2, Step 2, Step 2];
        i = system_init (0::int);
        s = the (run acts i);
        q = queue s;
        s2 = the (run [Invoke_Enqueue 0 7, Invoke_Enqueue 1 8, Invoke_Dequeue 2,
                Step 0, Step 1, Step 2, Step 0, Step 1, Step 2, Step 0, Step 1, Step 2,
                Step 0, Step 1, Step 2, Step 0, Step 1, Step 2, Step 0, Step 1, Step 2,
                Step 0, Step 1, Step 2, Return 0, Return 2,
                Step 1, Step 1, Step 1, Step 1, Invoke_Dequeue 2, Step 2, Step 2, Step 2,
                Step 1, Step 2, Step 2, Step 2, Return 1, Step 2, Step 2] i)
    in run acts i = Some s \<and>
       (\<exists>k h n. threads s2 2 = In_Dequeue k \<and> d_pc k = D_advance \<and>
          m_head (queue s2) = d_head k \<and> m_ptr (m_head (queue s2)) = Some h \<and>
          m_ptr (m_next (heap (queue s2) ! h)) = Some n \<and> n \<noteq> h \<and>
          d_ret k = Some (m_value (heap (queue s2) ! n))) \<and>
       (\<exists>l. threads s 2 = In_Dequeue l \<and> d_pc l = D_return \<and> d_result l = Some 7) \<and>
       enqueued acts = [7, 8] \<and> returned acts i = [] \<and>
       m_ptr (m_head q) = Some 1 \<and> former_heads q = [0] \<and>
       m_value (heap q ! 0) = 0 \<and> m_value (heap q ! 1) = 7 \<and>
       mset (returned acts i) + total_of inflight (threads s)
         = mset (map (\<lambda>a. m_value (heap q ! a)) (tl (former_heads q @ [1]))) \<and>
       0 \<notin> set (tl (former_heads q @ [1])) \<and>
       7 \<in> set (enqueued acts) \<and>
       (\<exists>n \<in> set (tl (former_heads q @ [1])). 7 = m_value (heap q ! n)) \<and>
       set (returned acts i) \<subseteq> set (enqueued acts) \<and>
       (\<exists>h. m_ptr (m_head q) = Some h \<and> h < length (heap q) \<and>
          (case m_ptr (m_next (heap q ! h)) of
             None \<Rightarrow>
               (\<forall>k. \<exists>q'. run_calls (replicate k (Call_Dequeue 2)) q
                         = Some (Inr (replicate k None, q')) \<and>
                  m_head q' = m_head q \<and> m_tail q' = m_tail q \<and> heap q' = heap q \<and>
                  retired (m_hp q') = retired (m_hp q))
           | Some n \<Rightarrow> n < length (heap q) \<and> n \<noteq> h \<and>
               (\<exists>q'. Dequeue 2 q = Some (Inr (Some (m_value (heap q ! n)), q')) \<and>
                     m_ptr (m_head q') = Some n))))"
proof -
  let ?acts = "[Invoke_Enqueue 0 (7::int), Invoke_Enqueue 1 8, Invoke_Dequeue 2,
                Step 0, Step 1, Step 2, Step 0, Step 1, Step 2, Step 0, Step 1, Step 2,
                Step 0, Step 1, Step 2, Step 0, Step 1, Step 2, Step 0, Step 1, Step 2,
                Step 0, Step 1, Step 2, Return 0, Return 2,
                Step 1, Step 1, Step 1, Step 1, Invoke_Dequeue 2, Step 2, Step 2, Step 2,
                Step 1, Step 2, Step 2, Step 2, Return 1, Step 2, Step 2, Step 2, Step 2]"
  let ?i = "system_init (0::int)"
  let ?s = "the (run ?acts ?i)"
  let ?q = "queue ?s"
  have r: "run ?acts ?i = Some ?s"
    by (simp add: sys_defs step_defs)
  have th: "\<exists>l. threads ?s 2 = In_Dequeue l \<and> d_pc l = D_return \<and> d_result l = Some 7"
    by (simp add: sys_defs step_defs)
  then obtain l where l: "threads ?s 2 = In_Dequeue l \<and> d_pc l = D_return \<and> d_result l = Some 7" ..
  have es: "enqueued ?acts = [7, 8]" by simp
  have rs: "returned ?acts ?i = []"
    by (simp add: sys_defs step_defs result_of_def)
  have f: "m_ptr (m_head ?q) = Some 1" "m_value (heap ?q ! 0) = 0" "m_value (heap ?q ! 1) = 7"
    by (simp_all add: sys_defs step_defs)
  have fh: "former_heads ?q = [0]"
    by (simp add: former_heads_def all_nodes_def sys_defs step_defs)
  have g: "?q = ?q \<or> (\<exists>cs rs. run_calls cs (LockfreeQueue_init (0::int)) = Some (Inr (rs, ?q)))"
    by simp
  let ?s2 = "the (run [Invoke_Enqueue 0 (7::int), Invoke_Enqueue 1 8, Invoke_Dequeue 2,
                Step 0, Step 1, Step 2, Step 0, Step 1, Step 2, Step 0, Step 1, Step 2,
                Step 0, Step 1, Step 2, Step 0, Step 1, Step 2, Step 0, Step 1, Step 2,
                Step 0, Step 1, Step 2, Return 0, Return 2,
                Step 1, Step 1, Step 1, Step 1, Invoke_Dequeue 2, Step 2, Step 2, Step 2,
                Step 1, Step 2, Step 2, Step 2, Return 1, Step 2, Step 2] ?i)"
  have r2: "run [Invoke_Enqueue 0 (7::int), Invoke_Enqueue 1 8, Invoke_Dequeue 2,
                Step 0, Step 1, Step 2, Step 0, Step 1, Step 2, Step 0, Step 1, Step 2,
                Step 0, Step 1, Step 2, Step 0, Step 1, Step 2, Step 0, Step 1, Step 2,
                Step 0, Step 1, Step 2, Return 0, Return 2,
                Step 1, Step 1, Step 1, Step 1, Invoke_Dequeue 2, Step 2, Step 2, Step 2,
                Step 1, Step 2, Step 2, Step 2, Return 1, Step 2, Step 2] ?i = Some ?s2"
    by (simp add: sys_defs step_defs)
  have "\<exists>k. threads ?s2 2 = In_Dequeue k \<and> d_pc k = D_advance \<and> m_head (queue ?s2) = d_head k"
    by (simp add: sys_defs step_defs)
  then obtain k where k: "threads ?s2 2 = In_Dequeue k \<and> d_pc k = D_advance \<and>
    m_head (queue ?s2) = d_head k" ..
  from C4_sentinel_never_returned [OF r2, of 2 _ _ k] k
  have S: "\<exists>k h n. threads ?s2 2 = In_Dequeue k \<and> d_pc k = D_advance \<and>
          m_head (queue ?s2) = d_head k \<and> m_ptr (m_head (queue ?s2)) = Some h \<and>
          m_ptr (m_next (heap (queue ?s2) ! h)) = Some n \<and> n \<noteq> h \<and>
          d_ret k = Some (m_value (heap (queue ?s2) ! n))" by blast
  note T = C4_sentinel_never_returned [OF r, of 2 l 7 _ ?q]
  from T obtain h where h: "m_ptr (m_head ?q) = Some h"
    and A: "mset (returned ?acts ?i) + total_of inflight (threads ?s)
         = mset (map (\<lambda>a. m_value (heap ?q ! a)) (tl (former_heads ?q @ [h])))"
    and B: "0 \<notin> set (tl (former_heads ?q @ [h]))"
    and C: "threads ?s 2 = In_Dequeue l \<and> d_pc l = D_return \<and> d_result l = Some 7 \<longrightarrow>
          7 \<in> set (enqueued ?acts) \<and>
          (\<exists>n \<in> set (tl (former_heads ?q @ [h])). 7 = m_value (heap ?q ! n))"
    by blast
  from h f(1) have h1: "h = 1" by simp
  from C l have C1: "7 \<in> set (enqueued ?acts)"
    and C2: "\<exists>n \<in> set (tl (former_heads ?q @ [h])). 7 = m_value (heap ?q ! n)" by blast+
  from T have D: "set (returned ?acts ?i) \<subseteq> set (enqueued ?acts)" by blast
  from T g have E: "(\<exists>h. m_ptr (m_head ?q) = Some h \<and> h < length (heap ?q) \<and>
          (case m_ptr (m_next (heap ?q ! h)) of
             None \<Rightarrow>
               (\<forall>k. \<exists>q'. run_calls (replicate k (Call_Dequeue 2)) ?q
                         = Some (Inr (replicate k None, q')) \<and>
                  m_head q' = m_head ?q \<and> m_tail q' = m_tail ?q \<and> heap q' = heap ?q \<and>
                  retired (m_hp q') = retired (m_hp ?q))
           | Some n \<Rightarrow> n < length (heap ?q) \<and> n \<noteq> h \<and>
               (\<exists>q'. Dequeue 2 ?q = Some (Inr (Some (m_value (heap ?q ! n)), q')) \<and>
                     m_ptr (m_head q') = Some n)))" by blast
  show ?thesis unfolding Let_def
    by (intro conjI r S th es rs f fh A [unfolded h1] B [unfolded h1] C1 C2 [unfolded h1] D E)
qed

text \<open>
  Claim C6. In every state reached under any interleaving of the steps of concurrent
  calls, the nodes in the retire log of the hazard context, together with the nodes that
  the calls standing at the retire statement are about to hand over, are exactly the
  former heads (the nodes before head in the list): each of them once, and never the
  current head, which is the node whose value was returned last. There are as many former
  heads as \<open>Dequeue\<close> calls that have returned a value or have taken one out and not
  returned yet; so when no call is running, every node that was head is retired exactly
  once and the log is as long as the list of returned values. A single \<open>Dequeue\<close> that no
  other thread interferes with, on a queue whose head \<open>h\<close> links to a node \<open>n\<close>, returns
  the value of \<open>n\<close> and appends exactly one node to the retire log: the old head \<open>h\<close>,
  which is not \<open>n\<close>; the node \<open>n\<close> stays in the list and is the new head.
\<close>

theorem C6_dequeue_retires_old_head:
  assumes "run acts (system_init d) = Some s"
  shows "mset (retired (m_hp (queue s))) + total_of retiring (threads s)
      = mset (map Some (former_heads (queue s))) \<and>
    distinct (retired (m_hp (queue s))) \<and>
    m_ptr (m_head (queue s)) \<notin> set (retired (m_hp (queue s))) \<and>
    length (former_heads (queue s))
      = length (returned acts (system_init d)) + size (total_of inflight (threads s)) \<and>
    ((\<forall>u. threads s u = Idle) \<longrightarrow>
       mset (retired (m_hp (queue s))) = mset (map Some (former_heads (queue s))) \<and>
       length (retired (m_hp (queue s))) = length (returned acts (system_init d))) \<and>
    (m_ptr (m_head q) = Some h \<and> h < length (heap q) \<and>
     m_ptr (m_next (heap q ! h)) = Some n \<and> n < length (heap q) \<and> n \<noteq> h \<longrightarrow>
       (\<exists>q'. Dequeue t q = Some (Inr (Some (m_value (heap q ! n)), q')) \<and>
          retired (m_hp q') = retired (m_hp q) @ [Some h] \<and>
          m_ptr (m_head q') = Some n \<and> heap q' = heap q))"
proof -
  let ?q = "queue s" and ?rs = "returned acts (system_init d)"
  from reachable_all [OF assms] obtain as where si: "sys_inv as s"
    and hi: "hist_inv as (enqueued acts) ?rs s" and ri: "retire_inv as s" by blast
  from si have li: "list_inv as ?q" by (simp add: sys_inv_def)
  let ?h = "npos as (m_ptr (m_head ?q))"
  from ri have ne: "as \<noteq> []" and hd0: "hd as = 0"
    and R: "mset (retired (m_hp ?q)) + total_of retiring (threads s) = mset (map Some (take ?h as))"
    by (simp_all add: retire_inv_def)
  have fh: "former_heads ?q = take ?h as" by (rule former_heads_take [OF li ne hd0])
  from li have d: "distinct as" by (simp add: list_inv_def)
  from list_inv_head_pos [OF li] have hl: "?h < length as"
    and hv: "?h \<le> length (linked_values as ?q)" by simp_all
  have A: "mset (retired (m_hp ?q)) + total_of retiring (threads s) = mset (map Some (former_heads ?q))"
    using R by (simp add: fh)
  from d have dt: "distinct (map Some (take ?h as))" by (simp add: distinct_map)
  from sub_distinct [OF R dt] have B: "distinct (retired (m_hp ?q))" .
  have C: "m_ptr (m_head ?q) \<notin> set (retired (m_hp ?q))"
  proof
    assume "m_ptr (m_head ?q) \<in> set (retired (m_hp ?q))"
    then have "m_ptr (m_head ?q) \<in># mset (retired (m_hp ?q)) + total_of retiring (threads s)" by simp
    with R have "m_ptr (m_head ?q) \<in> Some ` set (take ?h as)" by simp
    then obtain x where x: "m_ptr (m_head ?q) = Some x" "x \<in> set (take ?h as)" by auto
    then obtain i where i: "i < ?h" "as ! i = x" using hl
      by (auto simp: in_set_conv_nth)
    with d hl have "pos as x = i" by (metis less_trans pos_nth)
    with x(1) i(1) show False by simp
  qed
  from hi have J2: "mset (take ?h (linked_values as ?q)) = mset ?rs + total_of inflight (threads s)"
    by (simp add: hist_inv_def)
  from arg_cong [OF J2, of size] hv
  have "?h = length ?rs + size (total_of inflight (threads s))" by simp
  with hl have D: "length (former_heads ?q) = length ?rs + size (total_of inflight (threads s))"
    by (simp add: fh)
  have E: "mset (retired (m_hp ?q)) = mset (map Some (former_heads ?q)) \<and>
       length (retired (m_hp ?q)) = length ?rs" if idle: "\<forall>u. threads s u = Idle"
  proof -
    from idle have "threads s = (\<lambda>u. Idle)" by (simp add: fun_eq_iff)
    then have z: "total_of retiring (threads s) = {#}" "total_of inflight (threads s) = {#}"
      by (simp_all add: total_empty)
    with A have m: "mset (retired (m_hp ?q)) = mset (map Some (former_heads ?q))" by simp
    from arg_cong [OF m, of size] D z have "length (retired (m_hp ?q)) = length ?rs" by simp
    with m show ?thesis by simp
  qed
  have F: "\<exists>q'. Dequeue t q = Some (Inr (Some (m_value (heap q ! n)), q')) \<and>
          retired (m_hp q') = retired (m_hp q) @ [Some h] \<and>
          m_ptr (m_head q') = Some n \<and> heap q' = heap q"
    if "m_ptr (m_head q) = Some h \<and> h < length (heap q) \<and>
     m_ptr (m_next (heap q ! h)) = Some n \<and> n < length (heap q) \<and> n \<noteq> h"
  proof -
    from that have a: "m_ptr (m_head q) = Some h" "h < length (heap q)"
      "m_ptr (m_next (heap q ! h)) = Some n" "n < length (heap q)" "n \<noteq> h" by simp_all
    show ?thesis
      by (simp add: Dequeue_nonempty [OF a] deq_release_def ReleaseHazard_def RetireHazard_def)
  qed
  from A B C D E F show ?thesis by blast
qed

theorem C6_witness:
  "(let acts = [Invoke_Enqueue 0 7, Invoke_Enqueue 1 8, Invoke_Dequeue 2,
                Step 0, Step 1, Step 2, Step 0, Step 1, Step 2, Step 0, Step 1, Step 2,
                Step 0, Step 1, Step 2, Step 0, Step 1, Step 2, Step 0, Step 1, Step 2,
                Step 0, Step 1, Step 2, Return 0, Return 2,
                Step 1, Step 1, Step 1, Step 1, Invoke_Dequeue 2, Step 2, Step 2, Step 2,
                Step 1, Step 2, Step 2, Step 2, Return 1, Step 2, Step 2, Step 2, Step 2,
                Return 2];
        i = system_init (0::int);
        s = the (run acts i);
        q = queue s
    in run acts i = Some s \<and> (\<forall>u. threads s u = Idle) \<and>
       returned acts i = [7] \<and> retired (m_hp q) = [Some 0] \<and> former_heads q = [0] \<and>
       m_ptr (m_head q) = Some 1 \<and> m_ptr (m_next (heap q ! 1)) = Some 2 \<and>
       m_value (heap q ! 2) = 8 \<and>
       mset (retired (m_hp q)) = mset (map Some (former_heads q)) \<and>
       length (retired (m_hp q)) = length (returned acts i) \<and>
       (\<exists>q'. Dequeue 2 q = Some (Inr (Some (m_value (heap q ! 2)), q')) \<and>
          retired (m_hp q') = retired (m_hp q) @ [Some 1] \<and>
          m_ptr (m_head q') = Some 2 \<and> heap q' = heap q))"
proof -
  let ?acts = "[Invoke_Enqueue 0 (7::int), Invoke_Enqueue 1 8, Invoke_Dequeue 2,
                Step 0, Step 1, Step 2, Step 0, Step 1, Step 2, Step 0, Step 1, Step 2,
                Step 0, Step 1, Step 2, Step 0, Step 1, Step 2, Step 0, Step 1, Step 2,
                Step 0, Step 1, Step 2, Return 0, Return 2,
                Step 1, Step 1, Step 1, Step 1, Invoke_Dequeue 2, Step 2, Step 2, Step 2,
                Step 1, Step 2, Step 2, Step 2, Return 1, Step 2, Step 2, Step 2, Step 2,
                Return 2]"
  let ?i = "system_init (0::int)"
  let ?s = "the (run ?acts ?i)"
  let ?q = "queue ?s"
  have r: "run ?acts ?i = Some ?s"
    by (simp add: sys_defs step_defs)
  have idle: "\<forall>u. threads ?s u = Idle"
    by (simp add: sys_defs step_defs)
  have rs: "returned ?acts ?i = [7]"
    by (simp add: sys_defs step_defs result_of_def)
  have f: "retired (m_hp ?q) = [Some 0]" "m_ptr (m_head ?q) = Some 1"
    "m_ptr (m_next (heap ?q ! 1)) = Some 2" "m_value (heap ?q ! 2) = 8"
    by (simp_all add: sys_defs step_defs)
  have fh: "former_heads ?q = [0]"
    by (simp add: former_heads_def all_nodes_def sys_defs step_defs)
  have g: "m_ptr (m_head ?q) = Some 1 \<and> 1 < length (heap ?q) \<and>
     m_ptr (m_next (heap ?q ! 1)) = Some 2 \<and> 2 < length (heap ?q) \<and> (2::nat) \<noteq> 1"
    by (simp add: sys_defs step_defs)
  note T = C6_dequeue_retires_old_head [OF r, of ?q 1 2 2]
  from T idle have E: "mset (retired (m_hp ?q)) = mset (map Some (former_heads ?q)) \<and>
       length (retired (m_hp ?q)) = length (returned ?acts ?i)" by blast
  from T g have F: "\<exists>q'. Dequeue 2 ?q = Some (Inr (Some (m_value (heap ?q ! 2)), q')) \<and>
          retired (m_hp q') = retired (m_hp ?q) @ [Some 1] \<and>
          m_ptr (m_head q') = Some 2 \<and> heap q' = heap ?q" by blast
  show ?thesis unfolding Let_def
    by (intro conjI r idle rs f fh E [THEN conjunct1] E [THEN conjunct2] F)
qed




end
